theory Spec2Isabelle
  imports Main "HOL-Library.Word"
begin

unbundle bit_operations_syntax

section \<open>Bytes, slices and the helpers of the standard library\<close>

text \<open>
  A Go \<^verbatim>\<open>[]byte\<close> is a list of 8-bit words. Where the source tests a slice against
  \<^verbatim>\<open>nil\<close> (cursor keys, \<^verbatim>\<open>minKey\<close>), the slice is a \<open>bytes option\<close> and
  \<open>None\<close> is \<^verbatim>\<open>nil\<close>. Slices are taken to have capacity equal to their length, so a
  slice expression \<^verbatim>\<open>s[:n]\<close> with \<open>n\<close> beyond the length panics.
\<close>

type_synonym byte = "8 word"
type_synonym bytes = "byte list"
type_synonym uint64 = "64 word"

datatype error =
    IndexOutOfRange
  | SliceBoundsOutOfRange
  | NilPointer
  | WitnessKeyMismatch
  | OnlyBoltSupported
  | FailDecodeForStorage
  | HashBuilderError
  | ChangeSetError

text \<open>A stateful call either completes, or stops with an error (or panic) in the state
  reached so far: the loader is mutated through a pointer, so what was written before the
  error stays written.\<close>

datatype 'a result = Ok 'a | Err error 'a

definition HashLength :: nat where
  "HashLength = 32"

definition IncarnationLength :: nat where
  "IncarnationLength = 8"

text \<open>\<^verbatim>\<open>len\<close> and the contents of a possibly-nil slice.\<close>

definition blen :: "bytes option \<Rightarrow> nat" where
  "blen b = (case b of None \<Rightarrow> 0 | Some x \<Rightarrow> length x)"

definition bval :: "bytes option \<Rightarrow> bytes" where
  "bval b = (case b of None \<Rightarrow> [] | Some x \<Rightarrow> x)"

text \<open>\<^verbatim>\<open>bytes.Compare\<close>: lexicographic, unsigned bytes, result in \<open>{-1, 0, 1}\<close>.\<close>

fun bytes_Compare :: "bytes \<Rightarrow> bytes \<Rightarrow> int" where
  "bytes_Compare [] [] = 0"
| "bytes_Compare [] (y # ys) = - 1"
| "bytes_Compare (x # xs) [] = 1"
| "bytes_Compare (x # xs) (y # ys) =
     (if x < y then - 1 else if y < x then 1 else bytes_Compare xs ys)"

text \<open>\<^verbatim>\<open>bytes.HasPrefix(s, prefix)\<close> is
  \<^verbatim>\<open>len(s) >= len(prefix) && Equal(s[:len(prefix)], prefix)\<close>.\<close>

definition bytes_HasPrefix :: "bytes \<Rightarrow> bytes \<Rightarrow> bool" where
  "bytes_HasPrefix s p = (length p \<le> length s \<and> take (length p) s = p)"

text \<open>\<^verbatim>\<open>bytes.Equal\<close> does not tell \<^verbatim>\<open>nil\<close> from the empty slice.\<close>

definition bytes_Equal :: "bytes option \<Rightarrow> bytes option \<Rightarrow> bool" where
  "bytes_Equal a b = (bval a = bval b)"

text \<open>The builtin \<^verbatim>\<open>copy(dst, src)\<close> overwrites the first \<open>min (len dst) (len src)\<close>
  bytes of \<open>dst\<close> and keeps the rest.\<close>

definition go_copy :: "bytes \<Rightarrow> bytes \<Rightarrow> bytes" where
  "go_copy dst src = take (length dst) src @ drop (length src) dst"

text \<open>\<^verbatim>\<open>s[:n]\<close> and \<^verbatim>\<open>s[i]\<close> on Go \<^verbatim>\<open>int\<close> indices, with their panics.\<close>

definition slice_to :: "'a list \<Rightarrow> int \<Rightarrow> error + 'a list" where
  "slice_to s n =
     (if 0 \<le> n \<and> n \<le> int (length s) then Inr (take (nat n) s) else Inl SliceBoundsOutOfRange)"

definition index_at :: "'a list \<Rightarrow> int \<Rightarrow> error + 'a" where
  "index_at s i =
     (if 0 \<le> i \<and> i < int (length s) then Inr (s ! nat i) else Inl IndexOutOfRange)"

text \<open>\<^verbatim>\<open>binary.BigEndian.PutUint64\<close> writes these eight bytes;
  \<^verbatim>\<open>binary.BigEndian.Uint64\<close> reads the first eight and panics on a shorter slice.\<close>

definition be64 :: "uint64 \<Rightarrow> bytes" where
  "be64 w = map (\<lambda>i. ucast (drop_bit (8 * (7 - i)) w)) [0..<8]"

definition Uint64 :: "bytes \<Rightarrow> error + uint64" where
  "Uint64 v =
     (if length v < 8 then Inl IndexOutOfRange
      else Inr (foldl (\<lambda>acc b. push_bit 8 acc OR ucast b) 0 (take 8 v)))"

text \<open>Go's integer division truncates towards zero.\<close>

definition go_div :: "int \<Rightarrow> int \<Rightarrow> int" where
  "go_div x y = (if (x < 0) = (y < 0) then \<bar>x\<bar> div \<bar>y\<bar> else - (\<bar>x\<bar> div \<bar>y\<bar>))"

section \<open>Key encoding\<close>

text \<open>\<^verbatim>\<open>keyToNibbles(k, w)\<close>: the writer \<open>w\<close> is a \<^verbatim>\<open>bytes.Buffer\<close>, modelled by its
  contents; \<^verbatim>\<open>WriteByte\<close> appends.\<close>

fun keyToNibbles :: "bytes \<Rightarrow> bytes \<Rightarrow> bytes" where
  "keyToNibbles [] w = w"
| "keyToNibbles (b # k) w = keyToNibbles k (w @ [b div 16, b mod 16])"

text \<open>The first loop of \<^verbatim>\<open>keyToNibblesWithoutInc\<close>: \<open>i\<close> is the range index, the loop
  breaks when it reaches \<open>HashLength\<close>.\<close>

fun nibblesUntilHashLength :: "nat \<Rightarrow> bytes \<Rightarrow> bytes \<Rightarrow> bytes" where
  "nibblesUntilHashLength i [] w = w"
| "nibblesUntilHashLength i (b # k) w =
     (if i = HashLength then w
      else nibblesUntilHashLength (Suc i) k (w @ [b div 16, b mod 16]))"

definition keyToNibblesWithoutInc :: "bytes \<Rightarrow> bytes \<Rightarrow> bytes" where
  "keyToNibblesWithoutInc k w =
     (let w1 = nibblesUntilHashLength 0 k w
      in if length k > HashLength + IncarnationLength
         then keyToNibbles (drop (HashLength + IncarnationLength) k) w1
         else w1)"

text \<open>\<^verbatim>\<open>nextSubtree\<close>: the loop runs \<open>i\<close> from \<open>len(r) - 1\<close> down to \<open>0\<close>; the first
  argument is \<open>i + 1\<close>. \<open>None\<close> is the result \<^verbatim>\<open>(nil, false)\<close>.\<close>

fun nextSubtree_loop :: "nat \<Rightarrow> bytes \<Rightarrow> bytes option" where
  "nextSubtree_loop 0 r = None"
| "nextSubtree_loop (Suc i) r =
     (if r ! i \<noteq> 255 then Some (r[i := r ! i + 1])
      else nextSubtree_loop i (r[i := 0]))"

definition nextSubtree :: "bytes \<Rightarrow> bytes option" where
  "nextSubtree inp = nextSubtree_loop (length inp) inp"

text \<open>\<^verbatim>\<open>nextAccount(in, out)\<close> works in place on \<open>out\<close>, which is returned with the
  flag.\<close>

fun nextAccount_loop :: "nat \<Rightarrow> bytes \<Rightarrow> bool \<times> bytes" where
  "nextAccount_loop 0 out = (False, out)"
| "nextAccount_loop (Suc i) out =
     (if out ! i \<noteq> 255 then (True, out[i := out ! i + 1])
      else nextAccount_loop i (out[i := 0]))"

definition nextAccount :: "bytes \<Rightarrow> bytes \<Rightarrow> bool \<times> bytes" where
  "nextAccount inp out = nextAccount_loop (length out) (go_copy out inp)"

text \<open>\<^verbatim>\<open>keyIsBefore\<close>: \<^verbatim>\<open>nil\<close> is the last key.\<close>

definition keyIsBefore :: "bytes option \<Rightarrow> bytes option \<Rightarrow> bool \<times> bytes option" where
  "keyIsBefore k1 k2 =
     (case k1 of
        None \<Rightarrow> (False, k2)
      | Some a \<Rightarrow>
          (case k2 of
             None \<Rightarrow> (True, k1)
           | Some b \<Rightarrow> (if bytes_Compare a b \<le> 0 then (True, k1) else (False, k2))))"

section \<open>The data model of the loader\<close>

text \<open>Modelled from the spec: the \<^verbatim>\<open>StreamItem\<close> tag (declared beside the stream
  code, outside the loader's file): the five kinds of stream item, and no item.\<close>

datatype StreamItem =
    NoItem
  | AccountStreamItem
  | StorageStreamItem
  | AHashStreamItem
  | SHashStreamItem
  | CutoffStreamItem

text \<open>Modelled from the spec: the decoded account (\<^verbatim>\<open>accounts.Account\<close>), with the
  fields the loader reads: incarnation, nonce, balance and code hash.\<close>

record account =
  acc_Nonce :: uint64
  acc_Balance :: "256 word"
  acc_Incarnation :: uint64
  acc_CodeHash :: bytes

definition account_zero :: account where
  "account_zero = \<lparr>acc_Nonce = 0, acc_Balance = 0, acc_Incarnation = 0, acc_CodeHash = []\<rparr>"

text \<open>Modelled from the spec: the three variants of the data handed to
  \<^verbatim>\<open>GenStructStep\<close>: \<open>LeafData{value}\<close>,
  \<open>AccountData{balance, nonce, incarnation, fieldSet}\<close> and \<open>HashData{hash, dataLen}\<close>.\<close>

record accdata =
  ad_FieldSet :: "32 word"
  ad_Balance :: "256 word"
  ad_Nonce :: uint64
  ad_Incarnation :: uint64

datatype GenStructStepData =
    LeafData bytes
  | AccountData accdata
  | HashData bytes uint64

text \<open>The four places of the loader that call \<^verbatim>\<open>GenStructStep\<close>.\<close>

datatype call_site = InWalkerStorage | InFinaliseStorageRoot | InWalkerAccount | InFinaliseRoot

text \<open>
  Modelled from the spec: the hash builder is a black box that consumes \<open>reset\<close>,
  \<open>hash(bytes, depth)\<close> and the structural steps, and from which \<open>root\<close> and
  \<open>root_hash\<close> are read. Its state is modelled by the log of the calls it has received.
  A reset puts the builder back to its initial state, so what it answers depends on the
  calls since its last reset only (\<open>since_reset\<close>); the answers themselves are parameters
  (\<open>env\<close> below). Each structural step is logged with the place that issued it, its
  \<open>curr\<close> and \<open>succ\<close> keys, its data and the \<open>groups\<close> passed in.
\<close>

datatype hb_call =
    HbReset
  | HbHash bytes
  | HbGenStructStep call_site bytes bytes GenStructStepData "16 word list"

fun since_reset :: "hb_call list \<Rightarrow> hb_call list" where
  "since_reset [] = []"
| "since_reset (x # xs) =
     (if HbReset \<in> set xs then since_reset xs
      else if x = HbReset then xs else x # xs)"

text \<open>
  Modelled from the spec: the \<open>OrderedCursor\<close> contract of the backing store.
  \<open>seek_to(key)\<close> positions at the smallest key \<open>\<ge> key\<close>, \<open>next()\<close> advances by one,
  and both return the entry there or the end (\<^verbatim>\<open>nil\<close> key and value). The bucket is the
  list of its entries in key order; \<open>calls\<close> records the advances issued on the cursor.
\<close>

datatype cursor_call = SeekToCall bytes | NextCall

record cursor =
  entries :: "(bytes \<times> bytes) list"
  pos :: nat
  calls :: "cursor_call list"

definition cursor_at :: "cursor \<Rightarrow> bytes option \<times> bytes option" where
  "cursor_at cur =
     (if pos cur < length (entries cur)
      then (Some (fst (entries cur ! pos cur)), Some (snd (entries cur ! pos cur)))
      else (None, None))"

definition SeekTo :: "bytes \<Rightarrow> cursor \<Rightarrow> (bytes option \<times> bytes option) \<times> cursor" where
  "SeekTo seek cur =
     (let cur' = cur\<lparr>pos := length (takeWhile (\<lambda>e. bytes_Compare (fst e) seek < 0) (entries cur)),
                     calls := calls cur @ [SeekToCall seek]\<rparr>
      in (cursor_at cur', cur'))"

definition Next :: "cursor \<Rightarrow> (bytes option \<times> bytes option) \<times> cursor" where
  "Next cur =
     (let cur' = cur\<lparr>pos := min (Suc (pos cur)) (length (entries cur)),
                     calls := calls cur @ [NextCall]\<rparr>
      in (cursor_at cur', cur'))"

definition new_cursor :: "(bytes \<times> bytes) list \<Rightarrow> cursor" where
  "new_cursor es = \<lparr>entries = es, pos = 0, calls = []\<rparr>"

text \<open>The three buckets the loader reads in one transaction.\<close>

record kv =
  CurrentStateBucket :: "(bytes \<times> bytes) list"
  IntermediateTrieHashBucket :: "(bytes \<times> bytes) list"
  IntermediateTrieWitnessLenBucket :: "(bytes \<times> bytes) list"

text \<open>The \<^verbatim>\<open>ethdb.Database\<close> given to \<open>Reset\<close>: it either implements
  \<^verbatim>\<open>ethdb.HasKV\<close>, and then \<^verbatim>\<open>KV()\<close> is a bolt database or \<^verbatim>\<open>nil\<close>, or it does
  not.\<close>

datatype database = NoKV | HasKV "kv option"

text \<open>
  The parts of the repository that the loader calls and that are not in its file are
  parameters: \<^verbatim>\<open>ethdb.Bytesmask\<close>, the account codec
  (\<^verbatim>\<open>DecodeForStorage\<close>, \<open>None\<close> for a value that does not decode;
  \<^verbatim>\<open>IsEmptyCodeHash\<close>), the flag \<^verbatim>\<open>debug.IsTrackWitnessSizeEnabled\<close>, the
  \<^verbatim>\<open>AccountField...Only\<close> bits, and the answers of the hash builder to the calls it
  has received: the groups and the error of \<^verbatim>\<open>GenStructStep\<close>, the error of
  \<^verbatim>\<open>hash\<close>, \<^verbatim>\<open>root\<close> and \<^verbatim>\<open>rootHash\<close>.
\<close>

record env =
  Bytesmask :: "int \<Rightarrow> int \<times> byte"
  DecodeForStorage :: "bytes option \<Rightarrow> account option"
  IsEmptyCodeHash :: "account \<Rightarrow> bool"
  IsTrackWitnessSizeEnabled :: bool
  AccountFieldNonceOnly :: "32 word"
  AccountFieldBalanceOnly :: "32 word"
  AccountFieldStorageOnly :: "32 word"
  AccountFieldCodeOnly :: "32 word"
  GenStructStep_groups :: "hb_call list \<Rightarrow> 16 word list"
  GenStructStep_fails :: "hb_call list \<Rightarrow> bool"
  hb_hash_fails :: "hb_call list \<Rightarrow> bool"
  hb_root :: "hb_call list \<Rightarrow> bytes option"
  hb_rootHash :: "hb_call list \<Rightarrow> bytes"

text \<open>
  \<^verbatim>\<open>FlatDbSubTrieLoader\<close>. The buffers are their contents; \<open>hb\<close> is the hash
  builder behind the pointer; the embedded structs \<^verbatim>\<open>leafData\<close>, \<^verbatim>\<open>hashData\<close> and
  \<^verbatim>\<open>subTries\<close> are flattened into their fields. The cursors \<open>c\<close>, \<open>ih\<close> and
  \<open>iwl\<close> that \<^verbatim>\<open>LoadSubTries\<close> opens in its transaction (\<open>iwl\<close> is the one the closure
  \<^verbatim>\<open>getWitnessLen\<close> captures) are carried in the same record, since every step reads
  and moves them.
\<close>

record loader =
  rl :: "bytes \<Rightarrow> bool"
  curr :: bytes
  succ :: bytes
  val :: bytes
  groups :: "16 word list"
  hb :: "hb_call list"
  rangeIdx :: nat
  a :: account
  leafData_Value :: bytes
  accData :: accdata
  subTries_roots :: "bytes option list"
  subTries_Hashes :: "bytes list"
  wasIH :: bool
  wasIHStorage :: bool
  hashData_Hash :: bytes
  hashData_DataLen :: uint64
  trace :: bool
  currStorage :: bytes
  succStorage :: bytes
  valueStorage :: bytes
  witnessLenAccount :: uint64
  witnessLenStorage :: uint64
  accAddrHashWithInc :: bytes
  dbPrefixes :: "bytes list"
  fixedbytes :: "int list"
  masks :: "byte list"
  cutoffs :: "int list"
  boltDB :: "kv option"
  nextAccountKey :: bytes
  k :: "bytes option"
  v :: "bytes option"
  ihK :: "bytes option"
  ihV :: "bytes option"
  minKeyAsNibbles :: bytes
  itemPresent :: bool
  itemType :: StreamItem
  storageKeyPart1 :: "bytes option"
  storageKeyPart2 :: "bytes option"
  storageHash :: "bytes option"
  storageValue :: "bytes option"
  storageWitnessLen :: uint64
  accountKey :: "bytes option"
  accountHash :: "bytes option"
  accountValue :: account
  streamCutoff :: int
  accountWitnessLen :: uint64
  c :: cursor
  ih :: cursor
  iwl :: cursor

text \<open>\<^verbatim>\<open>NewFlatDbSubTrieLoader\<close>: every field has its zero value, the hash builder is
  new. The two arrays have their declared lengths.\<close>

definition NewFlatDbSubTrieLoader :: loader where
  "NewFlatDbSubTrieLoader =
     \<lparr>rl = (\<lambda>_. False), curr = [], succ = [], val = [], groups = [], hb = [], rangeIdx = 0,
      a = account_zero, leafData_Value = [],
      accData = \<lparr>ad_FieldSet = 0, ad_Balance = 0, ad_Nonce = 0, ad_Incarnation = 0\<rparr>,
      subTries_roots = [], subTries_Hashes = [], wasIH = False, wasIHStorage = False,
      hashData_Hash = replicate 32 0, hashData_DataLen = 0, trace = False,
      currStorage = [], succStorage = [], valueStorage = [],
      witnessLenAccount = 0, witnessLenStorage = 0,
      accAddrHashWithInc = replicate 40 0, dbPrefixes = [], fixedbytes = [], masks = [],
      cutoffs = [], boltDB = None, nextAccountKey = replicate 32 0,
      k = None, v = None, ihK = None, ihV = None, minKeyAsNibbles = [],
      itemPresent = False, itemType = NoItem,
      storageKeyPart1 = None, storageKeyPart2 = None, storageHash = None,
      storageValue = None, storageWitnessLen = 0,
      accountKey = None, accountHash = None, accountValue = account_zero,
      streamCutoff = 0, accountWitnessLen = 0,
      c = new_cursor [], ih = new_cursor [], iwl = new_cursor []\<rparr>"

section \<open>Reset\<close>

text \<open>The nibble cutoff that \<^verbatim>\<open>Reset\<close> derives from the fixed bits of a range.\<close>

definition cutoff_of_bits :: "int \<Rightarrow> int" where
  "cutoff_of_bits bits =
     (if bits \<ge> 256 + 64 then go_div bits 4 - 16 else go_div bits 4)"

text \<open>\<^verbatim>\<open>Reset\<close>. The loop over \<^verbatim>\<open>fixedbits\<close> fills the three arrays index by index;
  \<^verbatim>\<open>a.Reset()\<close> (of the account codec) is taken to give the zero account,
  \<^verbatim>\<open>hb.Reset()\<close> is a call to the hash builder.\<close>

definition Reset ::
  "env \<Rightarrow> database \<Rightarrow> (bytes \<Rightarrow> bool) \<Rightarrow> bytes list \<Rightarrow> int list \<Rightarrow> bool \<Rightarrow> loader
     \<Rightarrow> loader result" where
  "Reset E db rl' dbPrefixes' fixedbits trace' s =
     (let s1 = s\<lparr>rangeIdx := 0, curr := [], succ := [], val := [], groups := [],
                 a := account_zero, hb := hb s @ [HbReset], wasIH := False,
                 currStorage := [], succStorage := [], valueStorage := [],
                 minKeyAsNibbles := [], wasIHStorage := False,
                 subTries_roots := [], subTries_Hashes := [],
                 trace := trace', rl := rl', dbPrefixes := dbPrefixes', itemPresent := False\<rparr>
      in if length dbPrefixes' = 0 then Ok s1
         else
           let s2 = (case db of HasKV b \<Rightarrow> s1\<lparr>boltDB := b\<rparr> | NoKV \<Rightarrow> s1)
           in if boltDB s2 = None then Err OnlyBoltSupported s2
              else Ok (s2\<lparr>fixedbytes := map (\<lambda>bits. fst (Bytesmask E bits)) fixedbits,
                          masks := map (\<lambda>bits. snd (Bytesmask E bits)) fixedbits,
                          cutoffs := map cutoff_of_bits fixedbits\<rparr>))"

section \<open>The witness-length lookup\<close>

text \<open>The closure \<^verbatim>\<open>getWitnessLen\<close> that \<^verbatim>\<open>LoadSubTries\<close> installs, over the cursor
  \<open>iwl\<close> of the \<^verbatim>\<open>IntermediateTrieWitnessLen\<close> bucket. The result is the value or the
  panic, together with the cursor as the call leaves it.\<close>

definition getWitnessLen :: "env \<Rightarrow> cursor \<Rightarrow> bytes \<Rightarrow> (error + uint64) \<times> cursor" where
  "getWitnessLen E cur prefix =
     (if \<not> IsTrackWitnessSizeEnabled E then (Inr 0, cur)
      else
        (case SeekTo prefix cur of
           ((k', v'), cur') \<Rightarrow>
             if \<not> bytes_Equal k' (Some prefix) then (Inl WitnessKeyMismatch, cur')
             else (Uint64 (bval v'), cur')))"

section \<open>The merge step: \<^verbatim>\<open>iteration\<close>\<close>

text \<open>The local variables of \<^verbatim>\<open>iteration\<close> that live across its loop.\<close>

record locals =
  l_isIH :: bool
  l_minKey :: "bytes option"
  l_fixedbytes :: int
  l_cutoff :: int
  l_dbPrefix :: bytes
  l_mask :: byte
  l_cmp :: int

text \<open>How one pass of the loop leaves: by \<^verbatim>\<open>return nil\<close>, by a panic, or going on with
  the locals and the loader.\<close>

datatype flow = Returns loader | Fails error loader | Goes locals loader

text \<open>The first statement of the loop body: the comparison of \<^verbatim>\<open>minKey\<close> with the
  prefix of the current range. The result is the new value of \<^verbatim>\<open>cmp\<close>.\<close>

definition range_cmp :: "bool \<Rightarrow> locals \<Rightarrow> error + int" where
  "range_cmp first L =
     (case l_minKey L of
        None \<Rightarrow> Inr (if \<not> first then 1 else l_cmp L)
      | Some mk \<Rightarrow>
          if l_fixedbytes L > 0 then
            (if int (length mk) < l_fixedbytes L then
               (case slice_to (l_dbPrefix L) (int (length mk)) of
                  Inl e \<Rightarrow> Inl e
                | Inr p \<Rightarrow> (let r = bytes_Compare mk p in Inr (if r = 0 then - 1 else r)))
             else
               (case slice_to mk (l_fixedbytes L - 1) of
                  Inl e \<Rightarrow> Inl e
                | Inr m1 \<Rightarrow>
                    (case slice_to (l_dbPrefix L) (l_fixedbytes L - 1) of
                       Inl e \<Rightarrow> Inl e
                     | Inr p1 \<Rightarrow>
                         (let r = bytes_Compare m1 p1
                          in if r = 0 then
                               (case index_at mk (l_fixedbytes L - 1) of
                                  Inl e \<Rightarrow> Inl e
                                | Inr b1 \<Rightarrow>
                                    (case index_at (l_dbPrefix L) (l_fixedbytes L - 1) of
                                       Inl e \<Rightarrow> Inl e
                                     | Inr b2 \<Rightarrow>
                                         (let k1 = b1 AND l_mask L; k2 = b2 AND l_mask L
                                          in Inr (if k1 < k2 then - 1
                                                  else if k1 > k2 then 1 else r))))
                             else Inr r))))
          else Inr 0)"

text \<open>The block "advance past the storage to the first account", which the source
  repeats after each seek to a prefix \<open>p\<close>: on the cursor \<open>c\<close> \<dots>\<close>

definition advance_c_past_storage :: "bytes \<Rightarrow> loader \<Rightarrow> loader" where
  "advance_c_past_storage p s =
     (if length p \<le> HashLength \<and> blen (k s) > HashLength then
        (case nextAccount (bval (k s)) (nextAccountKey s) of
           (True, out) \<Rightarrow>
             (case SeekTo out (c s) of
                ((k', v'), cur) \<Rightarrow> s\<lparr>nextAccountKey := out, k := k', v := v', c := cur\<rparr>)
         | (False, out) \<Rightarrow> s\<lparr>nextAccountKey := out, k := None\<rparr>)
      else s)"

text \<open>\<dots> and on the cursor \<open>ih\<close>.\<close>

definition advance_ih_past_storage :: "bytes \<Rightarrow> loader \<Rightarrow> loader" where
  "advance_ih_past_storage p s =
     (if length p \<le> HashLength \<and> blen (ihK s) > HashLength then
        (case nextAccount (bval (ihK s)) (nextAccountKey s) of
           (True, out) \<Rightarrow>
             (case SeekTo out (ih s) of
                ((k', v'), cur) \<Rightarrow> s\<lparr>nextAccountKey := out, ihK := k', ihV := v', ih := cur\<rparr>)
         | (False, out) \<Rightarrow> s\<lparr>nextAccountKey := out, ihK := None\<rparr>)
      else s)"

text \<open>\<^verbatim>\<open>copy(fstl.accAddrHashWithInc[:], dbPrefix[:common.HashLength+common.IncarnationLength])\<close>.\<close>

definition copy_prefix_to_accAddrHashWithInc :: "bytes \<Rightarrow> loader \<Rightarrow> error + loader" where
  "copy_prefix_to_accAddrHashWithInc p s =
     (case slice_to p (int (HashLength + IncarnationLength)) of
        Inl e \<Rightarrow> Inl e
      | Inr q \<Rightarrow> Inr (s\<lparr>accAddrHashWithInc := go_copy (accAddrHashWithInc s) q\<rparr>))"

text \<open>The branch \<^verbatim>\<open>cmp < 0\<close>: both cursors seek to the prefix of the range.\<close>

definition seek_range :: "bool \<Rightarrow> locals \<Rightarrow> loader \<Rightarrow> flow" where
  "seek_range first L s =
     (let p = l_dbPrefix L
      in case (if first \<and> length p > HashLength then copy_prefix_to_accAddrHashWithInc p s
               else Inr s) of
           Inl e \<Rightarrow> Fails e s
         | Inr s1 \<Rightarrow>
             (case SeekTo p (c s1) of
                ((k', v'), cur) \<Rightarrow>
                  (let s2 = advance_c_past_storage p (s1\<lparr>k := k', v := v', c := cur\<rparr>)
                   in case SeekTo p (ih s2) of
                        ((ik, iv), icur) \<Rightarrow>
                          (let s3 = advance_ih_past_storage p
                                      (s2\<lparr>ihK := ik, ihV := iv, ih := icur\<rparr>)
                           in case keyIsBefore (ihK s3) (k s3) of
                                (b, m) \<Rightarrow>
                                  Goes (L\<lparr>l_isIH := b, l_minKey := m,
                                          l_cmp := (if l_fixedbytes L = 0 then 0 else l_cmp L)\<rparr>)
                                    s3))))"

text \<open>The branch \<^verbatim>\<open>cmp > 0\<close>: the cursors are past the range; a \<open>Cutoff\<close> item is
  written (not on the first call) and the next range is loaded.\<close>

definition next_range :: "bool \<Rightarrow> locals \<Rightarrow> loader \<Rightarrow> flow" where
  "next_range first L s =
     (let s1 = (if \<not> first then s\<lparr>rangeIdx := rangeIdx s + 1\<rparr> else s);
          s2 = (if \<not> first
                then s1\<lparr>itemPresent := True, itemType := CutoffStreamItem,
                        streamCutoff := l_cutoff L\<rparr>
                else s1)
      in if rangeIdx s2 = length (dbPrefixes s2) then Returns s2
         else
           (case index_at (fixedbytes s2) (int (rangeIdx s2)) of
              Inl e \<Rightarrow> Fails e s2
            | Inr fb \<Rightarrow>
                (case index_at (masks s2) (int (rangeIdx s2)) of
                   Inl e \<Rightarrow> Fails e s2
                 | Inr m \<Rightarrow>
                     (case index_at (dbPrefixes s2) (int (rangeIdx s2)) of
                        Inl e \<Rightarrow> Fails e s2
                      | Inr p \<Rightarrow>
                          (case (if length p > HashLength
                                 then copy_prefix_to_accAddrHashWithInc p s2 else Inr s2) of
                             Inl e \<Rightarrow> Fails e s2
                           | Inr s3 \<Rightarrow>
                               (case index_at (cutoffs s3) (int (rangeIdx s3)) of
                                  Inl e \<Rightarrow> Fails e s3
                                | Inr co \<Rightarrow>
                                    Goes (L\<lparr>l_fixedbytes := fb, l_mask := m, l_dbPrefix := p,
                                            l_cutoff := co\<rparr>) s3))))))"

text \<open>The loop \<^verbatim>\<open>for cmp != 0\<close>. It need not end (on a first call whose range holds no
  key it does not), so it runs on fuel: one unit per test of the loop condition, \<open>None\<close>
  when the fuel is used up.\<close>

fun reconcile :: "nat \<Rightarrow> bool \<Rightarrow> locals \<Rightarrow> loader \<Rightarrow> flow option" where
  "reconcile 0 first L s = None"
| "reconcile (Suc n) first L s =
     (if l_cmp L = 0 then Some (Goes L s)
      else
        (case range_cmp first L of
           Inl e \<Rightarrow> Some (Fails e s)
         | Inr r \<Rightarrow>
             (let L1 = L\<lparr>l_cmp := r\<rparr>
              in if r = 0 \<and> itemPresent s then Some (Returns s)
                 else if r < 0 then
                   (case seek_range first L1 s of
                      Goes L2 s2 \<Rightarrow> reconcile n first L2 s2
                    | other \<Rightarrow> Some other)
                 else if r > 0 then
                   (case next_range first L1 s of
                      Goes L2 s2 \<Rightarrow> reconcile n first L2 s2
                    | other \<Rightarrow> Some other)
                 else reconcile n first L1 s)))"

text \<open>The split of a storage key into the two parts a storage item carries.\<close>

definition storageKeyParts :: "bytes option \<Rightarrow> bytes option \<times> bytes option" where
  "storageKeyParts key =
     (if blen key \<ge> HashLength then
        (Some (take HashLength (bval key)),
         if blen key \<ge> HashLength + IncarnationLength
         then Some (drop (HashLength + IncarnationLength) (bval key)) else None)
      else (key, None))"

text \<open>\<^verbatim>\<open>binary.BigEndian.PutUint64(fstl.accAddrHashWithInc[32:], x)\<close>.\<close>

definition put_incarnation :: "uint64 \<Rightarrow> bytes \<Rightarrow> bytes" where
  "put_incarnation x arr = take 32 arr @ be64 x @ drop 40 arr"

text \<open>The part of \<^verbatim>\<open>iteration\<close> after the loop when \<^verbatim>\<open>isIH\<close> is false: the key of
  the cursor \<open>c\<close> is a storage item of the wrong account (skipped), a storage leaf or an
  account leaf.\<close>

definition leaf_path :: "env \<Rightarrow> loader \<Rightarrow> loader result" where
  "leaf_path E s =
     (if blen (k s) > HashLength \<and> \<not> bytes_HasPrefix (bval (k s)) (accAddrHashWithInc s) then
        (if bytes_Compare (bval (k s)) (accAddrHashWithInc s) < 0 then
           (case SeekTo (accAddrHashWithInc s) (c s) of
              ((k', v'), cur) \<Rightarrow> Ok (s\<lparr>k := k', v := v', c := cur\<rparr>))
         else
           (case nextAccount (bval (k s)) (nextAccountKey s) of
              (True, out) \<Rightarrow>
                (case SeekTo out (c s) of
                   ((k', v'), cur) \<Rightarrow>
                     Ok (s\<lparr>nextAccountKey := out, k := k', v := v', c := cur\<rparr>))
            | (False, out) \<Rightarrow> Ok (s\<lparr>nextAccountKey := out, k := None\<rparr>)))
      else
        (let s1 = s\<lparr>itemPresent := True\<rparr>
         in if blen (k s1) > HashLength then
              (let s2 = s1\<lparr>itemType := StorageStreamItem,
                          storageKeyPart1 := fst (storageKeyParts (k s1)),
                          storageKeyPart2 := snd (storageKeyParts (k s1)),
                          storageHash := None, storageValue := v s1\<rparr>
               in case Next (c s2) of
                    ((k', v'), cur) \<Rightarrow> Ok (s2\<lparr>k := k', v := v', c := cur\<rparr>))
            else
              (let s2 = s1\<lparr>itemType := AccountStreamItem, accountKey := k s1,
                          accountHash := None\<rparr>
               in case DecodeForStorage E (v s2) of
                    None \<Rightarrow> Err FailDecodeForStorage s2
                  | Some acc \<Rightarrow>
                      (let s3 = s2\<lparr>accountValue := acc\<rparr>;
                           s4 = s3\<lparr>accAddrHashWithInc :=
                                     put_incarnation (NOT (acc_Incarnation acc))
                                       (go_copy (accAddrHashWithInc s3) (bval (k s3)))\<rparr>
                       in case SeekTo (accAddrHashWithInc s4) (c s4) of
                            ((k', v'), cur) \<Rightarrow>
                              (let s5 = s4\<lparr>k := k', v := v', c := cur\<rparr>
                               in if \<not> bytes_HasPrefix (bval (ihK s5)) (accAddrHashWithInc s5)
                                  then
                                    (case SeekTo (accAddrHashWithInc s5) (ih s5) of
                                       ((ik, iv), icur) \<Rightarrow>
                                         Ok (s5\<lparr>ihK := ik, ihV := iv, ih := icur\<rparr>))
                                  else Ok s5)))))"

text \<open>The writing of a cached hash into the item buffer, with the witness-length lookup
  (which may panic).\<close>

definition emit_hash :: "env \<Rightarrow> loader \<Rightarrow> loader result" where
  "emit_hash E s =
     (let s1 = s\<lparr>itemPresent := True\<rparr>
      in if blen (ihK s1) > HashLength then
           (let s2 = s1\<lparr>itemType := SHashStreamItem,
                       storageKeyPart1 := fst (storageKeyParts (ihK s1)),
                       storageKeyPart2 := snd (storageKeyParts (ihK s1)),
                       storageHash := ihV s1, storageValue := None\<rparr>
            in case getWitnessLen E (iwl s2) (bval (ihK s2)) of
                 (Inl e, cur) \<Rightarrow> Err e (s2\<lparr>iwl := cur\<rparr>)
               | (Inr w, cur) \<Rightarrow> Ok (s2\<lparr>storageWitnessLen := w, iwl := cur\<rparr>))
         else
           (let s2 = s1\<lparr>itemType := AHashStreamItem, accountKey := ihK s1,
                       accountHash := ihV s1\<rparr>
            in case getWitnessLen E (iwl s2) (bval (ihK s2)) of
                 (Inl e, cur) \<Rightarrow> Err e (s2\<lparr>iwl := cur\<rparr>)
               | (Inr w, cur) \<Rightarrow> Ok (s2\<lparr>accountWitnessLen := w, iwl := cur\<rparr>)))"

text \<open>"Skip subtree": after a cached hash was taken, both cursors move to the next
  sibling \<^verbatim>\<open>nextSubtree(ihK)\<close>, or stop when there is none.\<close>

definition skip_subtree :: "bool \<Rightarrow> loader \<Rightarrow> loader" where
  "skip_subtree retain s =
     (case nextSubtree (bval (ihK s)) of
        None \<Rightarrow>
          (if \<not> retain then s\<lparr>k := None, ihK := None\<rparr>
           else s\<lparr>ihK := None, ihV := None\<rparr>)
      | Some nxt \<Rightarrow>
          (let s1 = (if \<not> bytes_HasPrefix (bval (k s)) nxt then
                       (case SeekTo nxt (c s) of
                          ((k', v'), cur) \<Rightarrow> s\<lparr>k := k', v := v', c := cur\<rparr>)
                     else s);
               s2 = advance_c_past_storage nxt s1;
               s3 = (if \<not> bytes_HasPrefix (bval (ihK s2)) nxt then
                       (case SeekTo nxt (ih s2) of
                          ((ik, iv), icur) \<Rightarrow> s2\<lparr>ihK := ik, ihV := iv, ih := icur\<rparr>)
                     else s2)
           in advance_ih_past_storage nxt s3))"

text \<open>The part of \<^verbatim>\<open>iteration\<close> after the loop when \<^verbatim>\<open>isIH\<close> is true.\<close>

definition ih_path :: "env \<Rightarrow> locals \<Rightarrow> loader \<Rightarrow> loader result" where
  "ih_path E L s =
     (let s1 = s\<lparr>minKeyAsNibbles := keyToNibblesWithoutInc (bval (l_minKey L)) []\<rparr>
      in if int (length (minKeyAsNibbles s1)) < l_cutoff L then
           (case Next (ih s1) of ((ik, iv), icur) \<Rightarrow> Ok (s1\<lparr>ihK := ik, ihV := iv, ih := icur\<rparr>))
         else
           (let retain = rl s1 (minKeyAsNibbles s1)
            in if retain then
                 (case Next (ih s1) of
                    ((ik, iv), icur) \<Rightarrow> Ok (s1\<lparr>ihK := ik, ihV := iv, ih := icur\<rparr>))
               else if blen (ihK s1) > HashLength
                       \<and> \<not> bytes_HasPrefix (bval (ihK s1)) (accAddrHashWithInc s1) then
                 (if bytes_Compare (bval (ihK s1)) (accAddrHashWithInc s1) < 0 then
                    (case SeekTo (accAddrHashWithInc s1) (ih s1) of
                       ((ik, iv), icur) \<Rightarrow> Ok (s1\<lparr>ihK := ik, ihV := iv, ih := icur\<rparr>))
                  else
                    (case nextAccount (bval (ihK s1)) (nextAccountKey s1) of
                       (True, out) \<Rightarrow>
                         (case SeekTo out (ih s1) of
                            ((ik, iv), icur) \<Rightarrow>
                              Ok (s1\<lparr>nextAccountKey := out, ihK := ik, ihV := iv, ih := icur\<rparr>))
                     | (False, out) \<Rightarrow> Ok (s1\<lparr>nextAccountKey := out, ihK := None\<rparr>)))
               else
                 (case emit_hash E s1 of
                    Err e s2 \<Rightarrow> Err e s2
                  | Ok s2 \<Rightarrow> Ok (skip_subtree retain s2))))"

definition iteration_body :: "env \<Rightarrow> locals \<Rightarrow> loader \<Rightarrow> loader result" where
  "iteration_body E L s = (if \<not> l_isIH L then leaf_path E s else ih_path E L s)"

text \<open>The declarations at the head of \<^verbatim>\<open>iteration\<close>: \<^verbatim>\<open>isIH\<close> and \<^verbatim>\<open>minKey\<close> (not
  computed on the first call), the parameters of the current range (an index out of
  range panics) and \<^verbatim>\<open>cmp = -1\<close>.\<close>

definition initial_locals :: "bool \<Rightarrow> loader \<Rightarrow> error + locals" where
  "initial_locals first s =
     (case (if \<not> first then keyIsBefore (ihK s) (k s) else (False, None)) of
        (b, m) \<Rightarrow>
          (case index_at (fixedbytes s) (int (rangeIdx s)) of
             Inl e \<Rightarrow> Inl e
           | Inr fb \<Rightarrow>
               (case index_at (cutoffs s) (int (rangeIdx s)) of
                  Inl e \<Rightarrow> Inl e
                | Inr co \<Rightarrow>
                    (case index_at (dbPrefixes s) (int (rangeIdx s)) of
                       Inl e \<Rightarrow> Inl e
                     | Inr p \<Rightarrow>
                         (case index_at (masks s) (int (rangeIdx s)) of
                            Inl e \<Rightarrow> Inl e
                          | Inr mk \<Rightarrow>
                              Inr \<lparr>l_isIH = b, l_minKey = m, l_fixedbytes = fb,
                                   l_cutoff = co, l_dbPrefix = p, l_mask = mk,
                                   l_cmp = - 1\<rparr>)))))"

text \<open>\<^verbatim>\<open>iteration(c, ih, first)\<close>: the locals are set up, the loop reconciles the
  cursors with the current range, and one of the two paths runs. \<open>None\<close>: the loop did not
  end within the fuel.\<close>

definition iteration :: "env \<Rightarrow> nat \<Rightarrow> bool \<Rightarrow> loader \<Rightarrow> loader result option" where
  "iteration E fuel first s =
     (case initial_locals first s of
        Inl e \<Rightarrow> Some (Err e s)
      | Inr L0 \<Rightarrow>
          (case reconcile fuel first L0 s of
             None \<Rightarrow> None
           | Some (Returns s') \<Rightarrow> Some (Ok s')
           | Some (Fails e s') \<Rightarrow> Some (Err e s')
           | Some (Goes L s1) \<Rightarrow> Some (iteration_body E L s1)))"

text \<open>The loader in which a call ends, with or without error.\<close>

definition result_state :: "'a result \<Rightarrow> 'a" where
  "result_state r = (case r of Ok s \<Rightarrow> s | Err e s \<Rightarrow> s)"

definition flow_state :: "flow \<Rightarrow> loader" where
  "flow_state f = (case f of Returns s \<Rightarrow> s | Fails e s \<Rightarrow> s | Goes L s \<Rightarrow> s)"

text \<open>The number of advances (\<open>SeekTo\<close> or \<open>Next\<close>) made so far on the cursors \<open>c\<close> and
  \<open>ih\<close>.\<close>

definition advances_c :: "loader \<Rightarrow> nat" where
  "advances_c s = length (calls (c s))"

definition advances_ih :: "loader \<Rightarrow> nat" where
  "advances_ih s = length (calls (ih s))"

section \<open>The structural walker and the finaliser\<close>

text \<open>Modelled from the spec: \<^verbatim>\<open>common.BytesToHash\<close> (in the repository's package
  \<^verbatim>\<open>common\<close>): a 32-byte hash from a slice, keeping the last 32 bytes of a longer slice
  and padding a shorter one with zeros on the left.\<close>

definition BytesToHash :: "bytes \<Rightarrow> bytes" where
  "BytesToHash b =
     (if length b > HashLength then drop (length b - HashLength) b
      else replicate (HashLength - length b) 0 @ b)"

text \<open>A call of \<^verbatim>\<open>GenStructStep(fstl.rl.Retain, curr, succ, fstl.hb, data, fstl.groups, false)\<close>
  with its result assigned to \<^verbatim>\<open>fstl.groups\<close>: the hash builder receives the call, and
  answers with the groups and possibly an error.\<close>

definition GenStructStep ::
  "env \<Rightarrow> call_site \<Rightarrow> bytes \<Rightarrow> bytes \<Rightarrow> GenStructStepData \<Rightarrow> loader \<Rightarrow> loader result" where
  "GenStructStep E site cu su data s =
     (let h = hb s @ [HbGenStructStep site cu su data (groups s)];
          s' = s\<lparr>hb := h, groups := GenStructStep_groups E (since_reset h)\<rparr>
      in if GenStructStep_fails E (since_reset h) then Err HashBuilderError s' else Ok s')"

text \<open>The loop that drops the trailing zero groups.\<close>

function trim_groups :: "16 word list \<Rightarrow> 16 word list" where
  "trim_groups gs =
     (if length gs > 0 \<and> gs ! (length gs - 1) = 0 then trim_groups (take (length gs - 1) gs)
      else gs)"
  by pat_completeness auto
termination
  by (relation "measure length") auto

text \<open>The data of the pending storage item: \<^verbatim>\<open>hashData\<close> or \<^verbatim>\<open>leafData\<close> is filled
  and handed on. \<open>w\<close> is the witness length the caller reads:
  \<^verbatim>\<open>fstl.witnessLenStorage\<close> in \<^verbatim>\<open>WalkerStorage\<close>, \<^verbatim>\<open>fstl.storageWitnessLen\<close> in
  \<^verbatim>\<open>finaliseStorageRoot\<close>.\<close>

definition storage_data :: "uint64 \<Rightarrow> loader \<Rightarrow> GenStructStepData \<times> loader" where
  "storage_data w s =
     (if wasIHStorage s then
        (let s1 = s\<lparr>hashData_Hash := BytesToHash (valueStorage s), hashData_DataLen := w\<rparr>
         in (HashData (hashData_Hash s1) (hashData_DataLen s1), s1))
      else
        (let s1 = s\<lparr>leafData_Value := valueStorage s\<rparr>
         in (LeafData (leafData_Value s1), s1)))"

definition WalkerStorage ::
  "env \<Rightarrow> bool \<Rightarrow> nat \<Rightarrow> bytes option \<Rightarrow> bytes option \<Rightarrow> bytes option \<Rightarrow> bytes option
     \<Rightarrow> uint64 \<Rightarrow> loader \<Rightarrow> loader result" where
  "WalkerStorage E isIH rangeIdx' kPart1 kPart2 v' h witnessLen s =
     (let s1 = s\<lparr>currStorage := succStorage s\<rparr>;
          s2 = s1\<lparr>succStorage := keyToNibbles (bval kPart2) (keyToNibbles (bval kPart1) [])\<rparr>;
          s3 = (if \<not> isIH then s2\<lparr>succStorage := succStorage s2 @ [16]\<rparr> else s2)
      in case (if length (currStorage s3) > 0 then
                 (case storage_data (witnessLenStorage s3) s3 of
                    (data, s4) \<Rightarrow>
                      GenStructStep E InWalkerStorage (currStorage s4) (succStorage s4) data s4)
               else Ok s3) of
           Err e s' \<Rightarrow> Err e s'
         | Ok s5 \<Rightarrow>
             (let s6 = s5\<lparr>wasIHStorage := isIH, valueStorage := []\<rparr>
              in if isIH then Ok (s6\<lparr>valueStorage := bval h, witnessLenStorage := witnessLen\<rparr>)
                 else Ok (s6\<lparr>valueStorage := bval v'\<rparr>)))"

definition finaliseStorageRoot :: "env \<Rightarrow> int \<Rightarrow> loader \<Rightarrow> (bool \<times> loader) result" where
  "finaliseStorageRoot E cutoff s =
     (let s1 = s\<lparr>currStorage := succStorage s, succStorage := []\<rparr>
      in if length (currStorage s1) > 0 then
           (case slice_to (currStorage s1) (cutoff - 1) of
              Inl e \<Rightarrow> Err e (False, s1)
            | Inr pre \<Rightarrow>
                (case index_at (currStorage s1) (cutoff - 1) of
                   Inl e \<Rightarrow> Err e (False, s1\<lparr>succStorage := pre\<rparr>)
                 | Inr b \<Rightarrow>
                     (case storage_data (storageWitnessLen s1) (s1\<lparr>succStorage := pre @ [b + 1]\<rparr>) of
                        (data, s2) \<Rightarrow>
                          (case GenStructStep E InFinaliseStorageRoot (currStorage s2)
                                  (succStorage s2) data s2 of
                             Err e s' \<Rightarrow> Err e (False, s')
                           | Ok s3 \<Rightarrow>
                               (case (if int (length (groups s3)) \<ge> cutoff
                                      then slice_to (groups s3) (cutoff - 1)
                                      else Inr (groups s3)) of
                                  Inl e \<Rightarrow> Err e (False, s3)
                                | Inr gs \<Rightarrow>
                                    Ok (True, s3\<lparr>groups := trim_groups gs, currStorage := [],
                                                succStorage := [], wasIHStorage := False\<rparr>))))))
         else Ok (False, s1))"

text \<open>The account data of the pending account leaf, as both \<^verbatim>\<open>WalkerAccount\<close> and
  \<^verbatim>\<open>finaliseRoot\<close> fill it after the storage root is closed: the balance, nonce and
  incarnation of \<^verbatim>\<open>fstl.a\<close>, and a bit of the field set for each one that is not
  zero.\<close>

definition fill_accData :: "env \<Rightarrow> loader \<Rightarrow> loader" where
  "fill_accData E s =
     (let d1 = (accData s)\<lparr>ad_Balance := acc_Balance (a s)\<rparr>;
          d2 = (if acc_Balance (a s) \<noteq> 0
                then d1\<lparr>ad_FieldSet := ad_FieldSet d1 OR AccountFieldBalanceOnly E\<rparr> else d1);
          d3 = d2\<lparr>ad_Nonce := acc_Nonce (a s)\<rparr>;
          d4 = (if acc_Nonce (a s) \<noteq> 0
                then d3\<lparr>ad_FieldSet := ad_FieldSet d3 OR AccountFieldNonceOnly E\<rparr> else d3)
      in s\<lparr>accData := d4\<lparr>ad_Incarnation := acc_Incarnation (a s)\<rparr>\<rparr>)"

text \<open>\<^verbatim>\<open>finaliseStorageRoot(2 * common.HashLength)\<close> followed by the setting of the
  storage bit, as both callers do.\<close>

definition close_storage :: "env \<Rightarrow> loader \<Rightarrow> loader result" where
  "close_storage E s =
     (case finaliseStorageRoot E (int (2 * HashLength)) s of
        Err e (ok, s') \<Rightarrow> Err e s'
      | Ok (ok, s') \<Rightarrow>
          Ok (if ok
              then s'\<lparr>accData := (accData s')\<lparr>ad_FieldSet :=
                         ad_FieldSet (accData s') OR AccountFieldStorageOnly E\<rparr>\<rparr>
              else s'))"

definition WalkerAccount ::
  "env \<Rightarrow> bool \<Rightarrow> nat \<Rightarrow> bytes option \<Rightarrow> account \<Rightarrow> bytes option \<Rightarrow> uint64 \<Rightarrow> loader
     \<Rightarrow> loader result" where
  "WalkerAccount E isIH rangeIdx' key v' h witnessLen s =
     (let s1 = s\<lparr>curr := succ s\<rparr>;
          s2 = s1\<lparr>succ := keyToNibbles (bval key) []\<rparr>;
          s3 = (if \<not> isIH then s2\<lparr>succ := succ s2 @ [16]\<rparr> else s2)
      in case (if length (curr s3) > 0 then
                 (case (if wasIH s3 then
                          (let s4 = s3\<lparr>hashData_Hash := go_copy (hashData_Hash s3) (val s3),
                                      hashData_DataLen := witnessLenAccount s3\<rparr>
                           in Ok (HashData (hashData_Hash s4) (hashData_DataLen s4), s4))
                        else
                          (case close_storage E s3 of
                             Err e s' \<Rightarrow> Err e (LeafData [], s')
                           | Ok s4 \<Rightarrow>
                               (let s5 = fill_accData E s4
                                in Ok (AccountData (accData s5), s5)))) of
                    Err e (data, s') \<Rightarrow> Err e s'
                  | Ok (data, s6) \<Rightarrow>
                      (let s7 = s6\<lparr>wasIHStorage := False, currStorage := [], succStorage := []\<rparr>
                       in case GenStructStep E InWalkerAccount (curr s7) (succ s7) data s7 of
                            Err e s' \<Rightarrow> Err e s'
                          | Ok s8 \<Rightarrow> Ok (s8\<lparr>accData := (accData s8)\<lparr>ad_FieldSet := 0\<rparr>\<rparr>)))
               else Ok s3) of
           Err e s' \<Rightarrow> Err e s'
         | Ok s9 \<Rightarrow>
             (let s10 = s9\<lparr>wasIH := isIH\<rparr>
              in if isIH then Ok (s10\<lparr>val := bval h, witnessLenAccount := witnessLen\<rparr>)
                 else
                   (let s11 = s10\<lparr>a := v'\<rparr>
                    in if \<not> IsEmptyCodeHash E (a s11) then
                         (let s12 = s11\<lparr>accData := (accData s11)\<lparr>ad_FieldSet :=
                                       ad_FieldSet (accData s11) OR AccountFieldCodeOnly E\<rparr>,
                                     hb := hb s11 @ [HbHash (acc_CodeHash (a s11))]\<rparr>
                          in if hb_hash_fails E (since_reset (hb s12)) then Err HashBuilderError s12
                             else Ok s12)
                       else Ok s11)))"

text \<open>The end of \<^verbatim>\<open>finaliseRoot\<close>: the root and its hash are appended to the output,
  and the walker is cleared for the next range.\<close>

definition append_root :: "env \<Rightarrow> loader \<Rightarrow> loader" where
  "append_root E s =
     s\<lparr>subTries_roots := subTries_roots s @ [hb_root E (since_reset (hb s))],
       subTries_Hashes := subTries_Hashes s @ [hb_rootHash E (since_reset (hb s))]\<rparr>"

definition finaliseRoot :: "env \<Rightarrow> int \<Rightarrow> loader \<Rightarrow> loader result" where
  "finaliseRoot E cutoff s =
     (if cutoff \<ge> int (2 * HashLength) then
        (case finaliseStorageRoot E cutoff s of
           Err e (ok, s') \<Rightarrow> Err e s'
         | Ok (ok, s') \<Rightarrow>
             (if ok then Ok (append_root E s')
              else Ok (s'\<lparr>subTries_roots := subTries_roots s' @ [None],
                          subTries_Hashes := subTries_Hashes s' @ [replicate HashLength 0]\<rparr>)))
      else
        (let s1 = s\<lparr>curr := succ s, succ := []\<rparr>
         in case (if length (curr s1) > 0 then
                    (case (if cutoff > 0 then
                             (case slice_to (curr s1) (cutoff - 1) of
                                Inl e \<Rightarrow> Err e s1
                              | Inr pre \<Rightarrow>
                                  (case index_at (curr s1) (cutoff - 1) of
                                     Inl e \<Rightarrow> Err e (s1\<lparr>succ := pre\<rparr>)
                                   | Inr b \<Rightarrow> Ok (s1\<lparr>succ := pre @ [b + 1]\<rparr>)))
                           else Ok s1) of
                       Err e s' \<Rightarrow> Err e s'
                     | Ok s2 \<Rightarrow>
                         (case (if wasIH s2 then
                                  (let s3 = s2\<lparr>hashData_Hash := BytesToHash (val s2),
                                              hashData_DataLen := accountWitnessLen s2\<rparr>
                                   in Ok (HashData (hashData_Hash s3) (hashData_DataLen s3), s3))
                                else
                                  (case close_storage E s2 of
                                     Err e s' \<Rightarrow> Err e (LeafData [], s')
                                   | Ok s3 \<Rightarrow>
                                       (let s4 = fill_accData E (s3\<lparr>wasIHStorage := False\<rparr>)
                                        in Ok (AccountData (accData s4), s4)))) of
                            Err e (data, s') \<Rightarrow> Err e s'
                          | Ok (data, s5) \<Rightarrow>
                              (case GenStructStep E InFinaliseRoot (curr s5) (succ s5) data s5 of
                                 Err e s' \<Rightarrow> Err e s'
                               | Ok s6 \<Rightarrow>
                                   (case (if int (length (groups s6)) > cutoff
                                          then slice_to (groups s6) cutoff
                                          else Inr (groups s6)) of
                                      Inl e \<Rightarrow> Err e s6
                                    | Inr gs \<Rightarrow>
                                        Ok (s6\<lparr>groups := trim_groups gs,
                                               accData := (accData s6)\<lparr>ad_FieldSet := 0\<rparr>\<rparr>)))))
                  else Ok s1) of
              Err e s' \<Rightarrow> Err e s'
            | Ok s7 \<Rightarrow>
                Ok ((append_root E s7)\<lparr>groups := [], hb := hb s7 @ [HbReset], wasIH := False,
                      wasIHStorage := False, curr := [], succ := [], currStorage := [],
                      succStorage := []\<rparr>)))"

section \<open>The driver: \<^verbatim>\<open>LoadSubTries\<close>\<close>

text \<open>The \<^verbatim>\<open>switch fstl.itemType\<close> of the driver.\<close>

definition dispatch :: "env \<Rightarrow> loader \<Rightarrow> loader result" where
  "dispatch E s =
     (case itemType s of
        StorageStreamItem \<Rightarrow>
          WalkerStorage E False (rangeIdx s) (storageKeyPart1 s) (storageKeyPart2 s)
            (storageValue s) (storageHash s) (storageWitnessLen s) s
      | SHashStreamItem \<Rightarrow>
          WalkerStorage E True (rangeIdx s) (storageKeyPart1 s) (storageKeyPart2 s)
            (storageValue s) (storageHash s) (storageWitnessLen s) s
      | AccountStreamItem \<Rightarrow>
          WalkerAccount E False (rangeIdx s) (accountKey s) (accountValue s) (accountHash s)
            (accountWitnessLen s) s
      | AHashStreamItem \<Rightarrow>
          WalkerAccount E True (rangeIdx s) (accountKey s) (accountValue s) (accountHash s)
            (accountWitnessLen s) s
      | CutoffStreamItem \<Rightarrow> finaliseRoot E (streamCutoff s) s
      | NoItem \<Rightarrow> Ok s)"

text \<open>The inner loop \<^verbatim>\<open>for !fstl.itemPresent\<close>, on fuel.\<close>

fun until_item :: "nat \<Rightarrow> env \<Rightarrow> loader \<Rightarrow> loader result option" where
  "until_item 0 E s = None"
| "until_item (Suc n) E s =
     (if itemPresent s then Some (Ok s)
      else
        (case iteration E n False s of
           None \<Rightarrow> None
         | Some (Err e s') \<Rightarrow> Some (Err e s')
         | Some (Ok s') \<Rightarrow> until_item n E s'))"

text \<open>The outer loop \<^verbatim>\<open>for fstl.rangeIdx < len(fstl.dbPrefixes)\<close>, on fuel.\<close>

fun load_loop :: "nat \<Rightarrow> env \<Rightarrow> loader \<Rightarrow> loader result option" where
  "load_loop 0 E s = None"
| "load_loop (Suc n) E s =
     (if rangeIdx s < length (dbPrefixes s) then
        (case until_item n E s of
           None \<Rightarrow> None
         | Some (Err e s') \<Rightarrow> Some (Err e s')
         | Some (Ok s1) \<Rightarrow>
             (case dispatch E s1 of
                Err e s' \<Rightarrow> Some (Err e s')
              | Ok s2 \<Rightarrow> load_loop n E (s2\<lparr>itemPresent := False\<rparr>)))
      else Some (Ok s))"

text \<open>The \<^verbatim>\<open>SubTries\<close> value a call returns, with its error.\<close>

record SubTries =
  roots :: "bytes option list"
  Hashes :: "bytes list"

definition subTries :: "loader \<Rightarrow> SubTries" where
  "subTries s = \<lparr>roots = subTries_roots s, Hashes = subTries_Hashes s\<rparr>"

text \<open>The cursors that the transaction of \<^verbatim>\<open>LoadSubTries\<close> opens, each at the start
  of its bucket.\<close>

definition open_cursors :: "kv \<Rightarrow> loader \<Rightarrow> loader" where
  "open_cursors b s =
     s\<lparr>c := new_cursor (CurrentStateBucket b),
       ih := new_cursor (IntermediateTrieHashBucket b),
       iwl := new_cursor (IntermediateTrieWitnessLenBucket b)\<rparr>"

text \<open>\<^verbatim>\<open>LoadSubTries\<close>: the returned \<^verbatim>\<open>SubTries\<close>, the error if any, and the loader as
  the call leaves it; \<open>None\<close> when a loop did not end within the fuel.\<close>

definition LoadSubTries ::
  "env \<Rightarrow> nat \<Rightarrow> loader \<Rightarrow> (SubTries \<times> error option \<times> loader) option" where
  "LoadSubTries E fuel s =
     (if length (dbPrefixes s) = 0 then Some (\<lparr>roots = [], Hashes = []\<rparr>, None, s)
      else
        (case boltDB s of
           None \<Rightarrow> Some (subTries s, Some NilPointer, s)
         | Some b \<Rightarrow>
             (let s0 = open_cursors b s
              in case (case iteration E fuel True s0 of
                         None \<Rightarrow> None
                       | Some (Err e s') \<Rightarrow> Some (Err e s')
                       | Some (Ok s1) \<Rightarrow> load_loop fuel E s1) of
                   None \<Rightarrow> None
                 | Some (Err e s') \<Rightarrow> Some (subTries s', Some e, s')
                 | Some (Ok s') \<Rightarrow> Some (subTries s', None, s'))))"

section \<open>The plain-state writer\<close>

text \<open>
  Modelled from the spec: the key-value database behind the writer
  (\<^verbatim>\<open>ethdb.Database\<close>, not in the writer's file) puts bytes into a named bucket and
  deletes them. A bucket is a map from keys to values; \<open>ops\<close> records the \<open>Put\<close> and
  \<open>Delete\<close> calls the database has received.
\<close>

datatype db_op = PutOp string bytes bytes | DeleteOp string bytes

record ethdb =
  buckets :: "string \<Rightarrow> bytes \<rightharpoonup> bytes"
  ops :: "db_op list"

definition Put :: "string \<Rightarrow> bytes \<Rightarrow> bytes \<Rightarrow> ethdb \<Rightarrow> ethdb" where
  "Put bucket key value d =
     d\<lparr>buckets := (buckets d)(bucket := (buckets d bucket)(key \<mapsto> value)),
       ops := ops d @ [PutOp bucket key value]\<rparr>"

definition Delete :: "string \<Rightarrow> bytes \<Rightarrow> ethdb \<Rightarrow> ethdb" where
  "Delete bucket key d =
     d\<lparr>buckets := (buckets d)(bucket := (buckets d bucket)(key := None)),
       ops := ops d @ [DeleteOp bucket key]\<rparr>"

definition PlainStateBucket :: string where
  "PlainStateBucket = ''PLAIN-CST''"

text \<open>Modelled from the spec: the composite storage key is the concatenation of the
  account, the 8-byte big-endian incarnation and the storage slot
  (\<^verbatim>\<open>dbutils.PlainGenerateCompositeStorageKey\<close>, with the address as the account).\<close>

definition PlainGenerateCompositeStorageKey :: "bytes \<Rightarrow> uint64 \<Rightarrow> bytes \<Rightarrow> bytes" where
  "PlainGenerateCompositeStorageKey address incarnation key = address @ be64 incarnation @ key"

text \<open>\<^verbatim>\<open>uint256.Int.Bytes\<close> (of the library the writer imports): the big-endian bytes of
  the value without leading zeros, none for zero.\<close>

definition uint256_Bytes :: "256 word \<Rightarrow> bytes" where
  "uint256_Bytes x =
     dropWhile (\<lambda>b. b = 0) (map (\<lambda>i. ucast (drop_bit (8 * (31 - i)) x)) [0..<32])"

text \<open>\<^verbatim>\<open>PlainStateWriter\<close>. The change-set writer \<open>csw\<close> is not in the file; its state is
  a type parameter, and its method \<^verbatim>\<open>WriteAccountStorage\<close> is a parameter of the
  function below, returning the error (if any) and the writer's new state.\<close>

record 'w PlainStateWriter =
  db :: ethdb
  csw :: 'w
  blockNumber :: uint64

definition WriteAccountStorage ::
  "('w \<Rightarrow> bytes \<Rightarrow> uint64 \<Rightarrow> bytes \<Rightarrow> 256 word \<Rightarrow> 256 word \<Rightarrow> error option \<times> 'w)
     \<Rightarrow> 'w PlainStateWriter \<Rightarrow> bytes \<Rightarrow> uint64 \<Rightarrow> bytes \<Rightarrow> 256 word \<Rightarrow> 256 word
     \<Rightarrow> error option \<times> 'w PlainStateWriter" where
  "WriteAccountStorage cswWrite w address incarnation key original value =
     (case cswWrite (csw w) address incarnation key original value of
        (Some err, csw') \<Rightarrow> (Some err, w\<lparr>csw := csw'\<rparr>)
      | (None, csw') \<Rightarrow>
          (let w1 = w\<lparr>csw := csw'\<rparr>
           in if original = value then (None, w1)
              else
                (let compositeKey = PlainGenerateCompositeStorageKey address incarnation key;
                     enc = uint256_Bytes value
                 in if length enc = 0
                    then (None, w1\<lparr>db := Delete PlainStateBucket compositeKey (db w1)\<rparr>)
                    else (None, w1\<lparr>db := Put PlainStateBucket compositeKey enc (db w1)\<rparr>))))"

section \<open>A concrete environment and small databases\<close>

definition empty_kv :: kv where
  "empty_kv = \<lparr>CurrentStateBucket = [], IntermediateTrieHashBucket = [],
               IntermediateTrieWitnessLenBucket = []\<rparr>"

text \<open>Modelled from the spec: \<^verbatim>\<open>ethdb.Bytesmask\<close>. The first \<open>fixedbytes - 1\<close> bytes of
  a key must match the prefix exactly and the next byte under the mask, which is the
  left-aligned bit mask of \<open>fixedbits mod 8\<close> bits (all bits when that is zero).\<close>

definition Bytesmask_spec :: "int \<Rightarrow> int \<times> byte" where
  "Bytesmask_spec fixedbits =
     (go_div (fixedbits + 7) 8,
      if fixedbits mod 8 = 0 then 255 else push_bit (nat (8 - fixedbits mod 8)) 255)"

text \<open>A small account codec for the examples: a value of three bytes holds the nonce,
  the incarnation and a code marker (zero for no code); the empty value is the empty
  account; no other value decodes.\<close>

definition decode_example :: "bytes option \<Rightarrow> account option" where
  "decode_example val' =
     (case bval val' of
        [] \<Rightarrow> Some account_zero
      | [n, i, cd] \<Rightarrow>
          Some \<lparr>acc_Nonce = ucast n, acc_Balance = 0, acc_Incarnation = ucast i,
                acc_CodeHash = (if cd = 0 then [] else [cd])\<rparr>
      | _ \<Rightarrow> None)"

text \<open>A hash builder for the examples, which never fails and whose root is a transcript
  of the calls it received since its reset: for each structural step the kind of its data,
  with the field set of account data and the witness length of hash data.\<close>

fun call_digest :: "hb_call \<Rightarrow> bytes" where
  "call_digest HbReset = []"
| "call_digest (HbHash b) = [192]"
| "call_digest (HbGenStructStep site cu su (LeafData x) g) = [1]"
| "call_digest (HbGenStructStep site cu su (AccountData d) g) = [2, ucast (ad_FieldSet d)]"
| "call_digest (HbGenStructStep site cu su (HashData x w) g) = [3, ucast w]"

definition transcript :: "hb_call list \<Rightarrow> bytes" where
  "transcript h = concat (map call_digest h)"

definition example_env :: env where
  "example_env =
     \<lparr>Bytesmask = Bytesmask_spec,
      DecodeForStorage = decode_example,
      IsEmptyCodeHash = (\<lambda>x. acc_CodeHash x = []),
      IsTrackWitnessSizeEnabled = True,
      AccountFieldNonceOnly = 1,
      AccountFieldBalanceOnly = 2,
      AccountFieldStorageOnly = 4,
      AccountFieldCodeOnly = 8,
      GenStructStep_groups = (\<lambda>h. []),
      GenStructStep_fails = (\<lambda>h. False),
      hb_hash_fails = (\<lambda>h. False),
      hb_root = (\<lambda>h. if h = [] then None else Some (transcript h)),
      hb_rootHash = (\<lambda>h. if h = [] then replicate 32 0 else transcript h)\<rparr>"

text \<open>A caller that resets the loader and loads: any error of \<open>Reset\<close> ends the call.\<close>

definition reset_then_load ::
  "env \<Rightarrow> nat \<Rightarrow> database \<Rightarrow> (bytes \<Rightarrow> bool) \<Rightarrow> bytes list \<Rightarrow> int list \<Rightarrow> loader
     \<Rightarrow> (SubTries \<times> error option \<times> loader) option" where
  "reset_then_load E fuel dbase rl' prefixes fixedbits s =
     (case Reset E dbase rl' prefixes fixedbits False s of
        Err e s' \<Rightarrow> Some (subTries s', Some e, s')
      | Ok s' \<Rightarrow> LoadSubTries E fuel s')"

text \<open>Three account keys of 32 bytes, whose first bytes are \<open>0x10\<close>, \<open>0x20\<close> and
  \<open>0x21\<close>.\<close>

definition key_10 :: bytes where
  "key_10 = [16, 0, 0, 0, 0, 0, 0, 0, 0, 0, 0, 0, 0, 0, 0, 0,
             0, 0, 0, 0, 0, 0, 0, 0, 0, 0, 0, 0, 0, 0, 0, 1]"

definition key_20 :: bytes where
  "key_20 = [32, 0, 0, 0, 0, 0, 0, 0, 0, 0, 0, 0, 0, 0, 0, 0,
             0, 0, 0, 0, 0, 0, 0, 0, 0, 0, 0, 0, 0, 0, 0, 1]"

definition key_21 :: bytes where
  "key_21 = [33, 0, 0, 0, 0, 0, 0, 0, 0, 0, 0, 0, 0, 0, 0, 0,
             0, 0, 0, 0, 0, 0, 0, 0, 0, 0, 0, 0, 0, 0, 0, 1]"

text \<open>A state with two accounts and no storage, the second account with code; the hash
  cache is empty.\<close>

definition two_accounts_kv :: kv where
  "two_accounts_kv =
     \<lparr>CurrentStateBucket = [(key_10, [1, 0, 0]), (key_20, [1, 0, 7])],
      IntermediateTrieHashBucket = [], IntermediateTrieWitnessLenBucket = []\<rparr>"

text \<open>The same state with a third account whose value does not decode.\<close>

definition three_accounts_kv :: kv where
  "three_accounts_kv =
     \<lparr>CurrentStateBucket = [(key_10, [1, 0, 0]), (key_20, [1, 0, 7]), (key_21, [9])],
      IntermediateTrieHashBucket = [], IntermediateTrieWitnessLenBucket = []\<rparr>"

text \<open>One loader used three times on that state: a load of the range \<open>0x10\<close>, a load of
  the range of the keys that start with the nibble \<open>2\<close>, and the first load again.\<close>

definition first_load :: "(SubTries \<times> error option \<times> loader) option" where
  "first_load =
     reset_then_load example_env 10 (HasKV (Some three_accounts_kv)) (\<lambda>_. False) [[16]] [8]
       NewFlatDbSubTrieLoader"

definition failed_load :: "(SubTries \<times> error option \<times> loader) option" where
  "failed_load =
     Option.bind first_load
       (\<lambda>r. reset_then_load example_env 10 (HasKV (Some three_accounts_kv)) (\<lambda>_. False)
               [[32]] [4] (snd (snd r)))"

definition first_load_again :: "(SubTries \<times> error option \<times> loader) option" where
  "first_load_again =
     Option.bind failed_load
       (\<lambda>r. reset_then_load example_env 10 (HasKV (Some three_accounts_kv)) (\<lambda>_. False)
               [[16]] [8] (snd (snd r)))"

text \<open>Whether a call returned without error, and the loader it returned.\<close>

definition is_ok :: "'a result option \<Rightarrow> bool" where
  "is_ok r = (case r of Some (Ok s) \<Rightarrow> True | _ \<Rightarrow> False)"

definition ok_state :: "'a result option \<Rightarrow> 'a" where
  "ok_state r = result_state (the r)"

text \<open>The loader as \<^verbatim>\<open>LoadSubTries\<close> hands it to the first step, after a \<open>Reset\<close> of a
  new loader; and as the next step finds it when the item of the first step has been
  consumed.\<close>

definition first_step_input :: "kv \<Rightarrow> bytes list \<Rightarrow> int list \<Rightarrow> loader" where
  "first_step_input b prefixes fixedbits =
     open_cursors b
       (result_state (Reset example_env (HasKV (Some b)) (\<lambda>_. False) prefixes fixedbits False
          NewFlatDbSubTrieLoader))"

definition second_step_input :: "kv \<Rightarrow> bytes list \<Rightarrow> int list \<Rightarrow> loader" where
  "second_step_input b prefixes fixedbits =
     (ok_state (iteration example_env 3 True (first_step_input b prefixes fixedbits)))
       \<lparr>itemPresent := False\<rparr>"

text \<open>An account of incarnation 1 with one storage slot, stored under the account hash,
  the complemented incarnation and the slot hash.\<close>

definition slot_30 :: bytes where
  "slot_30 = [48, 0, 0, 0, 0, 0, 0, 0, 0, 0, 0, 0, 0, 0, 0, 0,
              0, 0, 0, 0, 0, 0, 0, 0, 0, 0, 0, 0, 0, 0, 0, 1]"

definition storage_kv :: kv where
  "storage_kv =
     \<lparr>CurrentStateBucket =
        [(key_10, [1, 1, 0]),
         (key_10 @ [255, 255, 255, 255, 255, 255, 255, 254] @ slot_30, [5])],
      IntermediateTrieHashBucket = [], IntermediateTrieWitnessLenBucket = []\<rparr>"

text \<open>One account, and a cached hash for the one-byte prefix \<open>0xff\<close> with its witness
  length.\<close>

definition overflow_kv :: kv where
  "overflow_kv =
     \<lparr>CurrentStateBucket = [(key_10, [1, 0, 0])],
      IntermediateTrieHashBucket = [([255], slot_30)],
      IntermediateTrieWitnessLenBucket = [([255], [0, 0, 0, 0, 0, 0, 0, 9])]\<rparr>"

text \<open>Two ranges of eight fixed bits, \<open>0x08\<close> and \<open>0x10\<close>, over the accounts \<open>0x10\<dots>\<close>
  and \<open>0x20\<dots>\<close>: the first range holds no key. The state is the one the driver hands to the
  first step, the locals are the ones the step starts with.\<close>

definition empty_first_range_input :: loader where
  "empty_first_range_input = first_step_input two_accounts_kv [[8], [16]] [8, 8]"

definition empty_first_range_locals :: locals where
  "empty_first_range_locals =
     \<lparr>l_isIH = False, l_minKey = None, l_fixedbytes = 1, l_cutoff = 2, l_dbPrefix = [8],
      l_mask = 255, l_cmp = - 1\<rparr>"

section \<open>Predicates on the loader\<close>

text \<open>An item that is pending when a step starts its work after the loop can only be the
  \<open>Cutoff\<close> that the loop has written; the array \<^verbatim>\<open>accAddrHashWithInc\<close> has its declared
  length.\<close>

definition pending_is_cutoff :: "loader \<Rightarrow> bool" where
  "pending_is_cutoff s =
     ((itemPresent s \<longrightarrow> itemType s = CutoffStreamItem) \<and> length (accAddrHashWithInc s) = 40)"

text \<open>The range arrays are as \<open>Reset\<close> builds them from as many fixed bits as prefixes,
  and a prefix that reaches into storage holds the 40 bytes of account hash and
  incarnation.\<close>

definition ranges_ok :: "loader \<Rightarrow> bool" where
  "ranges_ok s =
     (length (fixedbytes s) = length (dbPrefixes s) \<and> length (masks s) = length (dbPrefixes s)
      \<and> length (cutoffs s) = length (dbPrefixes s)
      \<and> (\<forall>p\<in>set (dbPrefixes s). 32 < length p \<longrightarrow> 40 \<le> length p))"

text \<open>The locals with which a step goes on, if it goes on.\<close>

definition flow_locals :: "flow \<Rightarrow> locals option" where
  "flow_locals f = (case f of Goes L s \<Rightarrow> Some L | _ \<Rightarrow> None)"

section \<open>The stream of items\<close>

text \<open>
  Modelled from the spec: a stream item is a tagged variant with five kinds, an account
  leaf, a storage leaf, a cached account hash and a cached storage hash with their witness
  lengths, and a cutoff. Keys, values and hashes are slices that may be \<^verbatim>\<open>nil\<close>; a
  storage item is given by its whole key.
\<close>

datatype stream_item =
    AccountLeaf "bytes option" account
  | StorageLeaf "bytes option" "bytes option"
  | AccountHash "bytes option" "bytes option" uint64
  | StorageHash "bytes option" "bytes option" uint64
  | Cutoff int

text \<open>The fields of the item buffer that \<^verbatim>\<open>iteration\<close> writes when it emits an item of
  each kind.\<close>

definition put_item :: "stream_item \<Rightarrow> loader \<Rightarrow> loader" where
  "put_item x s =
     (case x of
        AccountLeaf key acc \<Rightarrow>
          s\<lparr>itemPresent := True, itemType := AccountStreamItem, accountKey := key,
            accountHash := None, accountValue := acc\<rparr>
      | StorageLeaf key value \<Rightarrow>
          s\<lparr>itemPresent := True, itemType := StorageStreamItem,
            storageKeyPart1 := fst (storageKeyParts key),
            storageKeyPart2 := snd (storageKeyParts key),
            storageHash := None, storageValue := value\<rparr>
      | AccountHash key h w \<Rightarrow>
          s\<lparr>itemPresent := True, itemType := AHashStreamItem, accountKey := key,
            accountHash := h, accountWitnessLen := w\<rparr>
      | StorageHash key h w \<Rightarrow>
          s\<lparr>itemPresent := True, itemType := SHashStreamItem,
            storageKeyPart1 := fst (storageKeyParts key),
            storageKeyPart2 := snd (storageKeyParts key),
            storageHash := h, storageValue := None, storageWitnessLen := w\<rparr>
      | Cutoff n \<Rightarrow>
          s\<lparr>itemPresent := True, itemType := CutoffStreamItem, streamCutoff := n\<rparr>)"

text \<open>One turn of the driver on an item that is in the buffer: the \<^verbatim>\<open>switch\<close>, then
  \<^verbatim>\<open>fstl.itemPresent = false\<close>; and the driver on a sequence of items.\<close>

definition process :: "env \<Rightarrow> stream_item \<Rightarrow> loader \<Rightarrow> loader result" where
  "process E x s =
     (case dispatch E (put_item x s) of
        Err e s' \<Rightarrow> Err e s'
      | Ok s' \<Rightarrow> Ok (s'\<lparr>itemPresent := False\<rparr>))"

fun run :: "env \<Rightarrow> stream_item list \<Rightarrow> loader \<Rightarrow> loader result" where
  "run E [] s = Ok s"
| "run E (x # xs) s =
     (case process E x s of Err e s' \<Rightarrow> Err e s' | Ok s' \<Rightarrow> run E xs s')"

text \<open>The witness length looked up for the last storage hash item of a sequence, and
  for its last account hash item.\<close>

fun last_storage_hash_wl :: "stream_item list \<Rightarrow> uint64 option" where
  "last_storage_hash_wl [] = None"
| "last_storage_hash_wl (x # xs) =
     (case last_storage_hash_wl xs of
        Some w \<Rightarrow> Some w
      | None \<Rightarrow> (case x of StorageHash key h w \<Rightarrow> Some w | _ \<Rightarrow> None))"

fun last_account_hash_wl :: "stream_item list \<Rightarrow> uint64 option" where
  "last_account_hash_wl [] = None"
| "last_account_hash_wl (x # xs) =
     (case last_account_hash_wl xs of
        Some w \<Rightarrow> Some w
      | None \<Rightarrow> (case x of AccountHash key h w \<Rightarrow> Some w | _ \<Rightarrow> None))"

text \<open>The place and the \<^verbatim>\<open>DataLen\<close> of a structural step that carries
  \<^verbatim>\<open>HashData\<close>.\<close>

fun hash_data_len :: "hb_call \<Rightarrow> (call_site \<times> uint64) option" where
  "hash_data_len (HbGenStructStep site cu su (HashData h dl) g) = Some (site, dl)"
| "hash_data_len other = None"

text \<open>Two cached storage hashes under the account \<open>0x10\<dots>\<close> and incarnation 1, with
  witness lengths 1 and 2: as items, and in the buckets of a state.\<close>

definition hash_1 :: "stream_item" where
  "hash_1 = StorageHash (Some (key_10 @ [255, 255, 255, 255, 255, 255, 255, 254] @ [16]))
              (Some slot_30) 1"

definition hash_2 :: "stream_item" where
  "hash_2 = StorageHash (Some (key_10 @ [255, 255, 255, 255, 255, 255, 255, 254] @ [32]))
              (Some slot_30) 2"

definition two_hashes_kv :: kv where
  "two_hashes_kv =
     \<lparr>CurrentStateBucket = [(key_10, [1, 1, 0])],
      IntermediateTrieHashBucket =
        [(key_10 @ [255, 255, 255, 255, 255, 255, 255, 254] @ [16], slot_30),
         (key_10 @ [255, 255, 255, 255, 255, 255, 255, 254] @ [32], slot_30)],
      IntermediateTrieWitnessLenBucket =
        [(key_10 @ [255, 255, 255, 255, 255, 255, 255, 254] @ [16], [0, 0, 0, 0, 0, 0, 0, 1]),
         (key_10 @ [255, 255, 255, 255, 255, 255, 255, 254] @ [32], [0, 0, 0, 0, 0, 0, 0, 2])]\<rparr>"

section \<open>Predicates on the walker\<close>

text \<open>What a \<^verbatim>\<open>DataLen\<close> must be at each place, seen from the loader \<open>s\<close> in which the
  walker or finaliser starts: the previous item of that level was a hash, and the length
  is the one the place reads.\<close>

definition dl_ok :: "loader \<Rightarrow> call_site \<Rightarrow> uint64 \<Rightarrow> bool" where
  "dl_ok s site dl =
     (case site of
        InWalkerStorage \<Rightarrow> wasIHStorage s \<and> dl = witnessLenStorage s
      | InFinaliseStorageRoot \<Rightarrow> wasIHStorage s \<and> dl = storageWitnessLen s
      | InWalkerAccount \<Rightarrow> wasIH s \<and> dl = witnessLenAccount s
      | InFinaliseRoot \<Rightarrow> wasIH s \<and> dl = accountWitnessLen s)"

definition call_ok :: "call_site set \<Rightarrow> loader \<Rightarrow> hb_call \<Rightarrow> bool" where
  "call_ok sites s call =
     (case call of
        HbGenStructStep site cu su d g \<Rightarrow>
          site \<in> sites \<and> (case d of HashData h dl \<Rightarrow> dl_ok s site dl | _ \<Rightarrow> True)
      | _ \<Rightarrow> True)"

definition calls_ok :: "call_site set \<Rightarrow> loader \<Rightarrow> hb_call list \<Rightarrow> bool" where
  "calls_ok sites s new = (\<forall>call\<in>set new. call_ok sites s call)"

text \<open>Between two loaders, the two flags were not raised and the four witness lengths
  are the same.\<close>

definition wl_le :: "loader \<Rightarrow> loader \<Rightarrow> bool" where
  "wl_le s' s =
     ((wasIHStorage s' \<longrightarrow> wasIHStorage s) \<and> (wasIH s' \<longrightarrow> wasIH s)
      \<and> witnessLenStorage s' = witnessLenStorage s \<and> storageWitnessLen s' = storageWitnessLen s
      \<and> witnessLenAccount s' = witnessLenAccount s \<and> accountWitnessLen s' = accountWitnessLen s)"

text \<open>A piece of code takes \<open>s\<close> to \<open>s'\<close>: the hash builder has received further
  calls, each from one of the given places and with a right \<^verbatim>\<open>DataLen\<close>.\<close>

definition eff :: "call_site set \<Rightarrow> loader \<Rightarrow> loader \<Rightarrow> bool" where
  "eff sites s s' = ((\<exists>new. hb s' = hb s @ new \<and> calls_ok sites s new) \<and> wl_le s' s)"

text \<open>After a sequence of items: if the pending item of a level is a hash, the walker's
  witness length and the one in the item buffer are both that of the last hash item of
  the level.\<close>

definition pending_witness_lens :: "stream_item list \<Rightarrow> loader \<Rightarrow> bool" where
  "pending_witness_lens items s =
     ((wasIHStorage s \<longrightarrow> last_storage_hash_wl items = Some (witnessLenStorage s)
                          \<and> storageWitnessLen s = witnessLenStorage s)
      \<and> (wasIH s \<longrightarrow> last_account_hash_wl items = Some (witnessLenAccount s)
                     \<and> accountWitnessLen s = witnessLenAccount s))"

text \<open>The item buffer of the loader.\<close>

definition item_buffer ::
  "loader \<Rightarrow> (bool \<times> StreamItem) \<times> (bytes option \<times> bytes option \<times> bytes option \<times> bytes option \<times> uint64)
      \<times> (bytes option \<times> bytes option \<times> account \<times> uint64) \<times> int" where
  "item_buffer s =
     ((itemPresent s, itemType s),
      (storageKeyPart1 s, storageKeyPart2 s, storageHash s, storageValue s, storageWitnessLen s),
      (accountKey s, accountHash s, accountValue s, accountWitnessLen s),
      streamCutoff s)"

section \<open>Key encoding: properties\<close>

definition nibbles :: "bytes \<Rightarrow> bytes" where
  "nibbles key = concat (map (\<lambda>b. [b div 16, b mod 16]) key)"

lemma keyToNibbles_eq: "keyToNibbles key w = w @ nibbles key"
  by (induction key arbitrary: w) (simp_all add: nibbles_def)

lemma nibblesUntilHashLength_eq:
  "i \<le> HashLength \<Longrightarrow> nibblesUntilHashLength i key w = w @ nibbles (take (HashLength - i) key)"
proof (induction key arbitrary: i w)
  case Nil
  then show ?case by (simp add: nibbles_def)
next
  case (Cons b key)
  show ?case
  proof (cases "i = HashLength")
    case True
    then show ?thesis by (simp add: nibbles_def)
  next
    case False
    with Cons.prems have lt: "Suc i \<le> HashLength" by simp
    from False Cons.prems obtain d where d: "HashLength - i = Suc d"
      by (cases "HashLength - i") auto
    then have d': "HashLength - Suc i = d" by simp
    show ?thesis
      using False Cons.IH [OF lt] d d' by (simp add: nibbles_def)
  qed
qed

lemma length_nibbles: "length (nibbles key) = 2 * length key"
  by (induction key) (simp_all add: nibbles_def)

text \<open>
  Claim C9. For every byte slice \<open>key\<close>, \<open>keyToNibblesWithoutInc\<close> appends to the writer two
  nibbles per byte, high nibble first, for bytes 0..31 of \<open>key\<close>, nothing for bytes 32..39,
  and two nibbles per byte for the bytes from 40 on; a 72-byte composite storage key gives
  exactly 128 nibbles.
\<close>

theorem keyToNibblesWithoutInc_skips_incarnation:
  "keyToNibblesWithoutInc key w =
     w @ concat (map (\<lambda>b. [b div 16, b mod 16]) (take 32 key))
       @ concat (map (\<lambda>b. [b div 16, b mod 16]) (drop 40 key))
   \<and> (length key = 72 \<longrightarrow> length (keyToNibblesWithoutInc key []) = 128)"
proof -
  have first: "nibblesUntilHashLength 0 key w = w @ nibbles (take 32 key)"
    using nibblesUntilHashLength_eq [of 0 key w] by (simp add: HashLength_def)
  have eq: "keyToNibblesWithoutInc key w = w @ nibbles (take 32 key) @ nibbles (drop 40 key)" for w
  proof (cases "length key > 40")
    case True
    then show ?thesis
      using nibblesUntilHashLength_eq [of 0 key w]
      by (simp add: keyToNibblesWithoutInc_def keyToNibbles_eq HashLength_def
          IncarnationLength_def)
  next
    case False
    then have "drop 40 key = []" by simp
    with False show ?thesis
      using nibblesUntilHashLength_eq [of 0 key w]
      by (simp add: keyToNibblesWithoutInc_def HashLength_def IncarnationLength_def
          nibbles_def)
  qed
  have len: "length key = 72 \<Longrightarrow> length (keyToNibblesWithoutInc key []) = 128"
    by (simp add: eq length_nibbles)
  show ?thesis
    using eq [of w] len by (simp add: nibbles_def)
qed

theorem keyToNibblesWithoutInc_skips_incarnation_witness:
  "length (replicate 72 (17 :: byte)) = 72
   \<and> length (keyToNibblesWithoutInc (replicate 72 17) []) = 128"
proof -
  have h: "length (replicate 72 (17 :: byte)) = 72" by simp
  from keyToNibblesWithoutInc_skips_incarnation [of "replicate 72 17" "[]"] h
  show ?thesis by blast
qed

section \<open>Reset: the cutoffs\<close>

text \<open>
  Claim C7. For every range \<open>i\<close> that \<open>Reset\<close> constructs (it constructs ranges when
  it is given at least one prefix and returns without error), the nibble cutoff is
  \<open>fixedbits[i] / 4\<close> when \<open>fixedbits[i] < 320\<close> and \<open>fixedbits[i] / 4 - 16\<close> when
  \<open>fixedbits[i] \<ge> 320\<close>, with Go's integer division; there is one cutoff per entry of
  \<open>fixedbits\<close>.
\<close>

theorem Reset_cutoffs:
  assumes "Reset E dbase rl' dbPrefixes' fixedbits trace' s = Ok s'"
    and "dbPrefixes' \<noteq> []"
    and "i < length fixedbits"
  shows "length (cutoffs s') = length fixedbits
    \<and> (fixedbits ! i < 320 \<longrightarrow> cutoffs s' ! i = go_div (fixedbits ! i) 4)
    \<and> (fixedbits ! i \<ge> 320 \<longrightarrow> cutoffs s' ! i = go_div (fixedbits ! i) 4 - 16)"
  using assms
  by (auto simp: Reset_def Let_def cutoff_of_bits_def split: if_splits database.splits)

theorem Reset_cutoffs_witness:
  "\<exists>s'. Reset example_env (HasKV (Some empty_kv)) (\<lambda>_. False) [[16], [32]] [8, 328] False
            NewFlatDbSubTrieLoader = Ok s'
        \<and> cutoffs s' ! 0 = 2 \<and> cutoffs s' ! 1 = 66"
proof -
  obtain s' where r:
    "Reset example_env (HasKV (Some empty_kv)) (\<lambda>_. False) [[16], [32]] [8, 328] False
       NewFlatDbSubTrieLoader = Ok s'"
    by (simp add: Reset_def)
  have ne: "[[16], [32 :: byte]] \<noteq> []" by simp
  from Reset_cutoffs [OF r ne, of 0] Reset_cutoffs [OF r ne, of 1] r
  show ?thesis by (simp add: go_div_def)
qed

section \<open>The witness-length lookup: flag and panic\<close>

lemma cursor_at_end: "fst (cursor_at cur) = None \<Longrightarrow> snd (cursor_at cur) = None"
  by (simp add: cursor_at_def split: if_splits)

text \<open>
  Claim C8. For every prefix given to the witness-length lookup: with the
  track-witness-size flag off it returns 0 and leaves the cursor as it was (no call is
  made on it); with the flag on, when \<open>SeekTo\<close> does not land on a key equal to the
  prefix, the lookup panics and returns no value.
\<close>

theorem getWitnessLen_flag_off_or_panic:
  "(\<not> IsTrackWitnessSizeEnabled E \<longrightarrow> getWitnessLen E cur prefix = (Inr 0, cur))
   \<and> (IsTrackWitnessSizeEnabled E \<and> fst (fst (SeekTo prefix cur)) \<noteq> Some prefix
        \<longrightarrow> (\<exists>e. fst (getWitnessLen E cur prefix) = Inl e))"
proof (intro conjI impI)
  assume "\<not> IsTrackWitnessSizeEnabled E"
  then show "getWitnessLen E cur prefix = (Inr 0, cur)"
    by (simp add: getWitnessLen_def)
next
  assume h: "IsTrackWitnessSizeEnabled E \<and> fst (fst (SeekTo prefix cur)) \<noteq> Some prefix"
  obtain k' v' cur' where sk: "SeekTo prefix cur = ((k', v'), cur')"
    by (metis surj_pair)
  have at: "(k', v') = cursor_at cur'"
    using sk by (auto simp: SeekTo_def Let_def)
  show "\<exists>e. fst (getWitnessLen E cur prefix) = Inl e"
  proof (cases k')
    case None
    with at have "v' = None" using cursor_at_end [of cur'] by (metis fst_conv snd_conv)
    with None h sk show ?thesis
      by (simp add: getWitnessLen_def bytes_Equal_def bval_def Uint64_def)
  next
    case (Some x)
    with h sk have "x \<noteq> prefix" by simp
    with Some h sk show ?thesis
      by (simp add: getWitnessLen_def bytes_Equal_def bval_def)
  qed
qed

theorem getWitnessLen_flag_off_or_panic_witness:
  "\<not> IsTrackWitnessSizeEnabled (example_env\<lparr>IsTrackWitnessSizeEnabled := False\<rparr>)
   \<and> getWitnessLen (example_env\<lparr>IsTrackWitnessSizeEnabled := False\<rparr>)
        (new_cursor [([1], [0, 0, 0, 0, 0, 0, 0, 9])]) [2]
      = (Inr 0, new_cursor [([1], [0, 0, 0, 0, 0, 0, 0, 9])])
   \<and> IsTrackWitnessSizeEnabled example_env
   \<and> fst (fst (SeekTo [2] (new_cursor [([1], [0, 0, 0, 0, 0, 0, 0, 9])]))) \<noteq> Some [2]
   \<and> (\<exists>e. fst (getWitnessLen example_env (new_cursor [([1], [0, 0, 0, 0, 0, 0, 0, 9])]) [2])
            = Inl e)"
  using getWitnessLen_flag_off_or_panic
          [of "example_env\<lparr>IsTrackWitnessSizeEnabled := False\<rparr>"
              "new_cursor [([1], [0, 0, 0, 0, 0, 0, 0, 9])]" "[2]"]
        getWitnessLen_flag_off_or_panic
          [of example_env "new_cursor [([1], [0, 0, 0, 0, 0, 0, 0, 9])]" "[2]"]
  by (simp add: example_env_def SeekTo_def new_cursor_def cursor_at_def)

section \<open>The plain-state writer: what a storage write does to the bucket\<close>

text \<open>
  Claim C10, as stated: on every call of \<open>WriteAccountStorage\<close> whose original and new
  values differ, the composite key is deleted or written. It fails on a call whose
  change-set writer reports an error: the function returns that error before it touches
  the database. Here the values 0 and 1 differ, the encoding of 1 is not empty, and the
  bucket has received no call and holds nothing under the composite key.
\<close>

theorem WriteAccountStorage_changeset_error_counterexample:
  "(0 :: 256 word) \<noteq> 1 \<and> uint256_Bytes 1 \<noteq> []
   \<and> ops (db (snd (WriteAccountStorage (\<lambda>w ad inc ky orig nv. (Some ChangeSetError, w))
                      \<lparr>db = \<lparr>buckets = (\<lambda>b. Map.empty), ops = []\<rparr>, csw = (), blockNumber = 1\<rparr>
                      [170] 1 [187] 0 1))) = []
   \<and> buckets (db (snd (WriteAccountStorage (\<lambda>w ad inc ky orig nv. (Some ChangeSetError, w))
                      \<lparr>db = \<lparr>buckets = (\<lambda>b. Map.empty), ops = []\<rparr>, csw = (), blockNumber = 1\<rparr>
                      [170] 1 [187] 0 1)))
        PlainStateBucket (PlainGenerateCompositeStorageKey [170] 1 [187])
      \<noteq> Some (uint256_Bytes 1)"
  by (simp add: WriteAccountStorage_def uint256_Bytes_def upt_rec)

text \<open>
  Claim C10, amended. For every call of \<open>WriteAccountStorage\<close>: when the original value
  equals the new value, or the change-set writer reports an error, the database is left
  as it was (no \<open>Put\<close> and no \<open>Delete\<close>); when the values differ and the change-set
  writer reports no error, the database receives exactly one call on the \<open>PlainState\<close>
  bucket, after which the composite storage key is absent if the byte encoding of the new
  value is empty, and is bound to that encoding otherwise; no other key changes.
\<close>

theorem WriteAccountStorage_bucket_effect:
  fixes w :: "'w PlainStateWriter"
  defines "ck \<equiv> PlainGenerateCompositeStorageKey"
  shows
  "(original = value \<or> fst (cswWrite (csw w) address incarnation key original value) \<noteq> None
      \<longrightarrow> db (snd (WriteAccountStorage cswWrite w address incarnation key original value)) = db w)
   \<and> (original \<noteq> value \<and> fst (cswWrite (csw w) address incarnation key original value) = None
      \<longrightarrow> (let d' = db (snd (WriteAccountStorage cswWrite w address incarnation key original value))
           in if uint256_Bytes value = []
              then ops d' = ops (db w) @ [DeleteOp PlainStateBucket (ck address incarnation key)]
                 \<and> buckets d' = (buckets (db w))(PlainStateBucket :=
                      (buckets (db w) PlainStateBucket)(ck address incarnation key := None))
              else ops d' = ops (db w)
                      @ [PutOp PlainStateBucket (ck address incarnation key) (uint256_Bytes value)]
                 \<and> buckets d' = (buckets (db w))(PlainStateBucket :=
                      (buckets (db w) PlainStateBucket)(ck address incarnation key
                         \<mapsto> uint256_Bytes value))))"
  unfolding ck_def
  by (cases "cswWrite (csw w) address incarnation key original value")
     (auto simp: WriteAccountStorage_def Let_def Put_def Delete_def split: option.splits)

theorem WriteAccountStorage_bucket_effect_witness:
  "(1 :: 256 word) \<noteq> 0
   \<and> fst ((\<lambda>w ad inc ky orig nv. (None, w)) () [170] (1 :: uint64) [187] (1 :: 256 word)
           (0 :: 256 word)) = (None :: error option)
   \<and> uint256_Bytes 0 = []
   \<and> ops (db (snd (WriteAccountStorage (\<lambda>w ad inc ky orig nv. (None, w))
                      \<lparr>db = \<lparr>buckets = (\<lambda>b. Map.empty), ops = []\<rparr>, csw = (), blockNumber = 1\<rparr>
                      [170] 1 [187] 1 0)))
      = [DeleteOp PlainStateBucket (PlainGenerateCompositeStorageKey [170] 1 [187])]"
  using WriteAccountStorage_bucket_effect
          [of 1 0 "\<lambda>w ad inc ky orig nv. (None, w)"
              "\<lparr>db = \<lparr>buckets = (\<lambda>b. Map.empty), ops = []\<rparr>, csw = (), blockNumber = 1\<rparr>"
              "[170]" 1 "[187]"]
  by (simp add: uint256_Bytes_def upt_rec Let_def)

section \<open>The driver on concrete states\<close>

text \<open>
  Claim C1 at a concrete input. The state holds the accounts \<open>0x10\<dots>\<close> and \<open>0x20\<dots>\<close>;
  three ranges of eight fixed bits are requested, \<open>0x10\<close>, \<open>0x18\<close> and \<open>0x20\<close>, of
  which the second holds no key. The call returns without error, with two roots and two
  hashes for the three ranges: the step that leaves the first range writes a \<open>Cutoff\<close>
  item, finds the cursor past the second range as well and overwrites that item with the
  \<open>Cutoff\<close> of the second range, so one root is finalised for the two ranges. The second
  entry of the output is the root of the third range.
\<close>

theorem LoadSubTries_skips_empty_range:
  "map_option fst
     (reset_then_load example_env 10 (HasKV (Some two_accounts_kv)) (\<lambda>_. False)
        [[16], [24], [32]] [8, 8, 8] NewFlatDbSubTrieLoader)
     = Some \<lparr>roots = [Some [2, 1], Some [192, 2, 9]], Hashes = [[2, 1], [192, 2, 9]]\<rparr>
   \<and> map_option (fst \<circ> snd)
     (reset_then_load example_env 10 (HasKV (Some two_accounts_kv)) (\<lambda>_. False)
        [[16], [24], [32]] [8, 8, 8] NewFlatDbSubTrieLoader)
     = Some None"
  by code_simp

text \<open>
  Claim C6 at a concrete input. One loader is reset and loaded three times on the same
  state, with the same retention predicate. The first load, of the range \<open>0x10\<close>, gives
  a root built from account data with the field set 1 (the nonce). The second load, of
  another range, walks an account with code and then fails on a value that does not
  decode; the code bit stays in \<^verbatim>\<open>accData.FieldSet\<close>, which \<open>Reset\<close> does not clear. The
  third load has the inputs of the first and gives a root built from the field set 9:
  the stale code bit is in the data of an account without code.
\<close>

theorem Reset_keeps_stale_field_set:
  "map_option fst first_load = Some \<lparr>roots = [Some [2, 1]], Hashes = [[2, 1]]\<rparr>
   \<and> map_option (fst \<circ> snd) first_load = Some None
   \<and> map_option (fst \<circ> snd) failed_load = Some (Some FailDecodeForStorage)
   \<and> map_option fst first_load_again = Some \<lparr>roots = [Some [2, 9]], Hashes = [[2, 9]]\<rparr>
   \<and> map_option (fst \<circ> snd) first_load_again = Some None"
  by code_simp

section \<open>The merge step: cursor advances\<close>

lemma is_ok_collapse: "is_ok r \<Longrightarrow> r = Some (Ok (ok_state r))"
  by (auto simp: is_ok_def ok_state_def result_state_def split: option.splits result.splits)

lemma SeekTo_calls: "SeekTo x cur = (kv', cur') \<Longrightarrow> calls cur' = calls cur @ [SeekToCall x]"
  by (auto simp: SeekTo_def Let_def)

lemma Next_calls: "Next cur = (kv', cur') \<Longrightarrow> calls cur' = calls cur @ [NextCall]"
  by (auto simp: Next_def Let_def)

lemma advance_c_past_storage_advances:
  "advances_c (advance_c_past_storage p s) \<le> advances_c s + 1"
  "advances_ih (advance_c_past_storage p s) = advances_ih s"
  by (auto simp: advance_c_past_storage_def advances_c_def advances_ih_def
      dest!: SeekTo_calls split: prod.splits bool.splits)

lemma advance_ih_past_storage_advances:
  "advances_ih (advance_ih_past_storage p s) \<le> advances_ih s + 1"
  "advances_c (advance_ih_past_storage p s) = advances_c s"
  by (auto simp: advance_ih_past_storage_def advances_c_def advances_ih_def
      dest!: SeekTo_calls split: prod.splits bool.splits)

lemma copy_prefix_advances:
  "copy_prefix_to_accAddrHashWithInc p s = Inr s' \<Longrightarrow>
     advances_c s' = advances_c s \<and> advances_ih s' = advances_ih s"
  by (auto simp: copy_prefix_to_accAddrHashWithInc_def advances_c_def advances_ih_def
      split: sum.splits)

lemma seek_range_advances:
  "advances_c (flow_state (seek_range first L s)) \<le> advances_c s + 2
   \<and> advances_ih (flow_state (seek_range first L s)) \<le> advances_ih s + 2"
proof -
  let ?p = "l_dbPrefix L"
  show ?thesis
  proof (cases "if first \<and> length ?p > HashLength then copy_prefix_to_accAddrHashWithInc ?p s else Inr s")
    case (Inl e)
    then show ?thesis by (simp add: seek_range_def flow_state_def Let_def)
  next
    case (Inr s1)
    then have s1: "advances_c s1 = advances_c s" "advances_ih s1 = advances_ih s"
      using copy_prefix_advances [of ?p s s1] by (auto split: if_splits)
    obtain k' v' cur where sk: "SeekTo ?p (c s1) = ((k', v'), cur)" by (metis surj_pair)
    define s2 where "s2 = advance_c_past_storage ?p (s1\<lparr>k := k', v := v', c := cur\<rparr>)"
    obtain ik iv icur where si: "SeekTo ?p (ih s2) = ((ik, iv), icur)" by (metis surj_pair)
    define s3 where "s3 = advance_ih_past_storage ?p (s2\<lparr>ihK := ik, ihV := iv, ih := icur\<rparr>)"
    have a2: "advances_c s2 \<le> advances_c s + 2" "advances_ih s2 = advances_ih s"
      using advance_c_past_storage_advances [of ?p "s1\<lparr>k := k', v := v', c := cur\<rparr>"]
        SeekTo_calls [OF sk] s1
      by (simp_all add: s2_def advances_c_def advances_ih_def)
    have a3: "advances_c s3 \<le> advances_c s + 2" "advances_ih s3 \<le> advances_ih s + 2"
      using advance_ih_past_storage_advances [of ?p "s2\<lparr>ihK := ik, ihV := iv, ih := icur\<rparr>"]
        SeekTo_calls [OF si] a2
      by (simp_all add: s3_def advances_c_def advances_ih_def)
    have "flow_state (seek_range first L s) = s3"
      using Inr sk si
      by (simp add: seek_range_def Let_def flow_state_def s2_def s3_def split: prod.splits)
    with a3 show ?thesis by simp
  qed
qed


lemma next_range_advances:
  "c (flow_state (next_range first L s)) = c s \<and> ih (flow_state (next_range first L s)) = ih s"
  by (auto simp: next_range_def flow_state_def Let_def copy_prefix_to_accAddrHashWithInc_def
      split: sum.splits if_splits)

lemma leaf_path_advances:
  "advances_c (result_state (leaf_path E s)) \<le> advances_c s + 1
   \<and> advances_ih (result_state (leaf_path E s)) \<le> advances_ih s + 1"
  by (auto simp: leaf_path_def result_state_def Let_def advances_c_def advances_ih_def
      dest!: SeekTo_calls Next_calls split: prod.splits bool.splits option.splits)

lemma emit_hash_advances:
  "c (result_state (emit_hash E s)) = c s \<and> ih (result_state (emit_hash E s)) = ih s
   \<and> ihK (result_state (emit_hash E s)) = ihK s \<and> k (result_state (emit_hash E s)) = k s"
  by (auto simp: emit_hash_def result_state_def Let_def split: prod.splits sum.splits)

lemma skip_subtree_advances:
  "advances_c (skip_subtree retain s) \<le> advances_c s + 2
   \<and> advances_ih (skip_subtree retain s) \<le> advances_ih s + 2"
proof (cases "nextSubtree (bval (ihK s))")
  case None
  then show ?thesis by (simp add: skip_subtree_def advances_c_def advances_ih_def)
next
  case (Some nxt)
  define s1 where "s1 = (if \<not> bytes_HasPrefix (bval (k s)) nxt then
                       (case SeekTo nxt (c s) of
                          ((k', v'), cur) \<Rightarrow> s\<lparr>k := k', v := v', c := cur\<rparr>)
                     else s)"
  define s2 where "s2 = advance_c_past_storage nxt s1"
  define s3 where "s3 = (if \<not> bytes_HasPrefix (bval (ihK s2)) nxt then
                       (case SeekTo nxt (ih s2) of
                          ((ik, iv), icur) \<Rightarrow> s2\<lparr>ihK := ik, ihV := iv, ih := icur\<rparr>)
                     else s2)"
  have a1: "advances_c s1 \<le> advances_c s + 1" "advances_ih s1 = advances_ih s"
    by (auto simp: s1_def advances_c_def advances_ih_def dest!: SeekTo_calls split: prod.splits)
  have a2: "advances_c s2 \<le> advances_c s + 2" "advances_ih s2 = advances_ih s"
    using advance_c_past_storage_advances [of nxt s1] a1 by (simp_all add: s2_def)
  have a3: "advances_c s3 = advances_c s2" "advances_ih s3 \<le> advances_ih s2 + 1"
    by (auto simp: s3_def advances_c_def advances_ih_def dest!: SeekTo_calls split: prod.splits)
  have "skip_subtree retain s = advance_ih_past_storage nxt s3"
    using Some by (simp add: skip_subtree_def Let_def s1_def s2_def s3_def)
  then show ?thesis
    using advance_ih_past_storage_advances [of nxt s3] a2 a3 by simp
qed

lemma ih_path_advances:
  "advances_c (result_state (ih_path E L s)) \<le> advances_c s + 2
   \<and> advances_ih (result_state (ih_path E L s)) \<le> advances_ih s + 2"
proof -
  define s1 where "s1 = s\<lparr>minKeyAsNibbles := keyToNibblesWithoutInc (bval (l_minKey L)) []\<rparr>"
  have s1: "advances_c s1 = advances_c s" "advances_ih s1 = advances_ih s"
    by (simp_all add: s1_def advances_c_def advances_ih_def)
  consider
    (descend) "int (length (minKeyAsNibbles s1)) < l_cutoff L \<or> rl s1 (minKeyAsNibbles s1)"
  | (wrong) "\<not> int (length (minKeyAsNibbles s1)) < l_cutoff L" "\<not> rl s1 (minKeyAsNibbles s1)"
      "blen (ihK s1) > HashLength \<and> \<not> bytes_HasPrefix (bval (ihK s1)) (accAddrHashWithInc s1)"
  | (emit) "\<not> int (length (minKeyAsNibbles s1)) < l_cutoff L" "\<not> rl s1 (minKeyAsNibbles s1)"
      "\<not> (blen (ihK s1) > HashLength \<and> \<not> bytes_HasPrefix (bval (ihK s1)) (accAddrHashWithInc s1))"
    by blast
  then show ?thesis
  proof cases
    case descend
    then have "ih_path E L s =
        (case Next (ih s1) of ((ik, iv), icur) \<Rightarrow> Ok (s1\<lparr>ihK := ik, ihV := iv, ih := icur\<rparr>))"
      unfolding s1_def by (auto simp: ih_path_def Let_def)
    then show ?thesis
      using s1
      by (auto simp: result_state_def advances_c_def advances_ih_def
          dest!: Next_calls split: prod.splits)
  next
    case wrong
    then have "ih_path E L s =
        (if bytes_Compare (bval (ihK s1)) (accAddrHashWithInc s1) < 0 then
           (case SeekTo (accAddrHashWithInc s1) (ih s1) of
              ((ik, iv), icur) \<Rightarrow> Ok (s1\<lparr>ihK := ik, ihV := iv, ih := icur\<rparr>))
         else
           (case nextAccount (bval (ihK s1)) (nextAccountKey s1) of
              (True, out) \<Rightarrow>
                (case SeekTo out (ih s1) of
                   ((ik, iv), icur) \<Rightarrow>
                     Ok (s1\<lparr>nextAccountKey := out, ihK := ik, ihV := iv, ih := icur\<rparr>))
            | (False, out) \<Rightarrow> Ok (s1\<lparr>nextAccountKey := out, ihK := None\<rparr>)))"
      unfolding s1_def by (simp add: ih_path_def Let_def)
    then show ?thesis
      using s1
      by (auto simp: result_state_def advances_c_def advances_ih_def
          dest!: SeekTo_calls split: prod.splits bool.splits)
  next
    case emit
    then have eq: "ih_path E L s =
        (case emit_hash E s1 of Err e s2 \<Rightarrow> Err e s2 | Ok s2 \<Rightarrow> Ok (skip_subtree False s2))"
      unfolding s1_def by (auto simp: ih_path_def Let_def)
    have e: "advances_c (result_state (emit_hash E s1)) = advances_c s"
          "advances_ih (result_state (emit_hash E s1)) = advances_ih s"
      using emit_hash_advances [of E s1] s1 by (simp_all add: advances_c_def advances_ih_def)
    show ?thesis
    proof (cases "emit_hash E s1")
      case (Ok s2)
      with e have "advances_c s2 = advances_c s" "advances_ih s2 = advances_ih s"
        by (simp_all add: result_state_def)
      with skip_subtree_advances [of False s2] eq Ok show ?thesis
        by (simp add: result_state_def)
    next
      case (Err e' s2)
      with e eq show ?thesis by (simp add: result_state_def)
    qed
  qed
qed

lemma iteration_body_advances:
  "advances_c (result_state (iteration_body E L s)) \<le> advances_c s + 2
   \<and> advances_ih (result_state (iteration_body E L s)) \<le> advances_ih s + 2"
  using leaf_path_advances [of E s] ih_path_advances [of E L s]
  by (simp add: iteration_body_def)

lemma reconcile_in_range:
  assumes "range_cmp first L = Inr 0" "\<not> itemPresent s" "l_cmp L \<noteq> 0"
  shows "reconcile (Suc (Suc n)) first L s = Some (Goes (L\<lparr>l_cmp := 0\<rparr>) s)"
  using assms by (simp add: Let_def)

lemma iteration_in_range:
  assumes "initial_locals first s = Inr L" "range_cmp first L = Inr 0" "\<not> itemPresent s"
  shows "iteration E (Suc (Suc n)) first s = Some (iteration_body E (L\<lparr>l_cmp := 0\<rparr>) s)"
proof -
  have "l_cmp L \<noteq> 0"
    using assms(1) by (auto simp: initial_locals_def split: prod.splits sum.splits)
  from reconcile_in_range [OF assms(2,3) this, of n] assms(1)
  show ?thesis by (simp add: iteration_def)
qed


text \<open>
  Claim C3, as stated, at a concrete input: the first step of a load of the range \<open>0x10\<close>
  on the state with two accounts. No advance has been made on the cursor \<open>C\<close> before the
  step; the step seeks \<open>C\<close> to the prefix of the range, emits the account found there and
  seeks \<open>C\<close> again, past the account's storage: two advances of \<open>C\<close> in one invocation.
\<close>

theorem iteration_first_step_seeks_twice_counterexample:
  "advances_c (first_step_input two_accounts_kv [[16]] [8]) = 0
   \<and> map_option (calls \<circ> c \<circ> result_state)
       (iteration example_env 3 True (first_step_input two_accounts_kv [[16]] [8]))
     = Some [SeekToCall [16],
             SeekToCall (key_10 @ [255, 255, 255, 255, 255, 255, 255, 255])]"
  by code_simp

text \<open>
  Claim C3, amended. In every invocation of the step function, the code that follows the
  range-reconciliation loop advances each of the two cursors at most twice: at most once
  on the leaf path, and on the cached-hash path a seek to the next subtree that may be
  followed by a seek past an account's storage. Each pass of the loop that seeks to the
  range advances each cursor at most twice in the same way, and a pass that moves to the
  next range advances none. In particular, an invocation that is not the first and finds
  the smaller cursor key inside the current range returns, having advanced each cursor at
  most twice.
\<close>

theorem iteration_cursor_advances:
  "(initial_locals False s = Inr L \<and> range_cmp False L = Inr 0 \<and> \<not> itemPresent s \<longrightarrow>
      (\<exists>r. iteration E (Suc (Suc n)) False s = Some r
          \<and> advances_c (result_state r) \<le> advances_c s + 2
          \<and> advances_ih (result_state r) \<le> advances_ih s + 2))
   \<and> advances_c (result_state (leaf_path E s)) \<le> advances_c s + 1
   \<and> advances_ih (result_state (leaf_path E s)) \<le> advances_ih s + 1
   \<and> advances_c (result_state (ih_path E L' s)) \<le> advances_c s + 2
   \<and> advances_ih (result_state (ih_path E L' s)) \<le> advances_ih s + 2
   \<and> advances_c (flow_state (seek_range first L' s)) \<le> advances_c s + 2
   \<and> advances_ih (flow_state (seek_range first L' s)) \<le> advances_ih s + 2
   \<and> advances_c (flow_state (next_range first L' s)) = advances_c s
   \<and> advances_ih (flow_state (next_range first L' s)) = advances_ih s"
proof -
  have "\<exists>r. iteration E (Suc (Suc n)) False s = Some r
          \<and> advances_c (result_state r) \<le> advances_c s + 2
          \<and> advances_ih (result_state r) \<le> advances_ih s + 2"
    if h: "initial_locals False s = Inr L \<and> range_cmp False L = Inr 0 \<and> \<not> itemPresent s"
  proof -
    from h iteration_in_range [of False s L E n]
    have "iteration E (Suc (Suc n)) False s = Some (iteration_body E (L\<lparr>l_cmp := 0\<rparr>) s)"
      by simp
    with iteration_body_advances [of E "L\<lparr>l_cmp := 0\<rparr>" s] show ?thesis by simp
  qed
  then show ?thesis
    using leaf_path_advances [of E s] ih_path_advances [of E L' s]
      seek_range_advances [of first L' s] next_range_advances [of first L' s]
    by (simp add: advances_c_def advances_ih_def)
qed

theorem iteration_cursor_advances_witness:
  "initial_locals False (second_step_input two_accounts_kv [[]] [0])
     = Inr \<lparr>l_isIH = False, l_minKey = Some key_20, l_fixedbytes = 0, l_cutoff = 0,
            l_dbPrefix = [], l_mask = 255, l_cmp = - 1\<rparr>
   \<and> range_cmp False \<lparr>l_isIH = False, l_minKey = Some key_20, l_fixedbytes = 0, l_cutoff = 0,
                       l_dbPrefix = [], l_mask = 255, l_cmp = - 1\<rparr> = Inr 0
   \<and> \<not> itemPresent (second_step_input two_accounts_kv [[]] [0])
   \<and> (\<exists>r. iteration example_env (Suc (Suc 0)) False (second_step_input two_accounts_kv [[]] [0])
             = Some r
          \<and> advances_c (result_state r)
               \<le> advances_c (second_step_input two_accounts_kv [[]] [0]) + 2
          \<and> advances_ih (result_state r)
               \<le> advances_ih (second_step_input two_accounts_kv [[]] [0]) + 2)"
proof -
  have h1: "initial_locals False (second_step_input two_accounts_kv [[]] [0])
     = Inr \<lparr>l_isIH = False, l_minKey = Some key_20, l_fixedbytes = 0, l_cutoff = 0,
            l_dbPrefix = [], l_mask = 255, l_cmp = - 1\<rparr>"
    by code_simp
  have h2: "range_cmp False \<lparr>l_isIH = False, l_minKey = Some key_20, l_fixedbytes = 0,
                l_cutoff = 0, l_dbPrefix = [], l_mask = 255, l_cmp = - 1\<rparr> = Inr 0"
    by code_simp
  have h3: "\<not> itemPresent (second_step_input two_accounts_kv [[]] [0])"
    by code_simp
  from iteration_cursor_advances
         [of "second_step_input two_accounts_kv [[]] [0]"
             "\<lparr>l_isIH = False, l_minKey = Some key_20, l_fixedbytes = 0, l_cutoff = 0,
               l_dbPrefix = [], l_mask = 255, l_cmp = - 1\<rparr>" example_env 0]
       h1 h2 h3
  show ?thesis by blast
qed

section \<open>The merge step: what is emitted\<close>

lemma length_go_copy [simp]: "length (go_copy dst src) = length dst"
  by (simp add: go_copy_def)

lemma advance_c_past_storage_frame [simp]:
  "itemPresent (advance_c_past_storage p s) = itemPresent s"
  "itemType (advance_c_past_storage p s) = itemType s"
  "accAddrHashWithInc (advance_c_past_storage p s) = accAddrHashWithInc s"
  "storageKeyPart1 (advance_c_past_storage p s) = storageKeyPart1 s"
  "storageKeyPart2 (advance_c_past_storage p s) = storageKeyPart2 s"
  "accountKey (advance_c_past_storage p s) = accountKey s"
  "minKeyAsNibbles (advance_c_past_storage p s) = minKeyAsNibbles s"
  "ihK (advance_c_past_storage p s) = ihK s"
  "ih (advance_c_past_storage p s) = ih s"
  by (simp_all add: advance_c_past_storage_def split: prod.splits bool.splits)

lemma advance_ih_past_storage_frame [simp]:
  "itemPresent (advance_ih_past_storage p s) = itemPresent s"
  "itemType (advance_ih_past_storage p s) = itemType s"
  "accAddrHashWithInc (advance_ih_past_storage p s) = accAddrHashWithInc s"
  "storageKeyPart1 (advance_ih_past_storage p s) = storageKeyPart1 s"
  "storageKeyPart2 (advance_ih_past_storage p s) = storageKeyPart2 s"
  "accountKey (advance_ih_past_storage p s) = accountKey s"
  "minKeyAsNibbles (advance_ih_past_storage p s) = minKeyAsNibbles s"
  "k (advance_ih_past_storage p s) = k s"
  "c (advance_ih_past_storage p s) = c s"
  by (simp_all add: advance_ih_past_storage_def split: prod.splits bool.splits)

lemma skip_subtree_frame [simp]:
  "itemPresent (skip_subtree r s) = itemPresent s"
  "itemType (skip_subtree r s) = itemType s"
  "accAddrHashWithInc (skip_subtree r s) = accAddrHashWithInc s"
  "storageKeyPart1 (skip_subtree r s) = storageKeyPart1 s"
  "storageKeyPart2 (skip_subtree r s) = storageKeyPart2 s"
  "accountKey (skip_subtree r s) = accountKey s"
  "minKeyAsNibbles (skip_subtree r s) = minKeyAsNibbles s"
  by (simp_all add: skip_subtree_def Let_def split: prod.splits bool.splits option.splits)

lemma seek_range_pending:
  "pending_is_cutoff s \<Longrightarrow> pending_is_cutoff (flow_state (seek_range first L s))"
  by (auto simp: seek_range_def Let_def flow_state_def pending_is_cutoff_def
      copy_prefix_to_accAddrHashWithInc_def
      split: prod.splits sum.splits if_splits)

lemma next_range_pending:
  "pending_is_cutoff s \<Longrightarrow> pending_is_cutoff (flow_state (next_range first L s))"
  by (auto simp: next_range_def Let_def flow_state_def pending_is_cutoff_def
      copy_prefix_to_accAddrHashWithInc_def
      split: prod.splits sum.splits if_splits)

lemma reconcile_pending:
  "reconcile n first L s = Some f \<Longrightarrow> pending_is_cutoff s \<Longrightarrow> pending_is_cutoff (flow_state f)"
proof (induction n arbitrary: L s)
  case 0
  then show ?case by simp
next
  case (Suc n)
  show ?case
  proof (cases "l_cmp L = 0")
    case True
    with Suc.prems show ?thesis by (auto simp: flow_state_def)
  next
    case False
    show ?thesis
    proof (cases "range_cmp first L")
      case (Inl e)
      with False Suc.prems show ?thesis by (auto simp: flow_state_def)
    next
      case (Inr r)
      let ?L1 = "L\<lparr>l_cmp := r\<rparr>"
      consider (ret) "r = 0" "itemPresent s" | (go) "r = 0" "\<not> itemPresent s"
        | (neg) "r < 0" | (pos) "r > 0" by linarith
      then show ?thesis
      proof cases
        case ret
        with False Inr Suc.prems show ?thesis by (auto simp: flow_state_def)
      next
        case go
        with False Inr Suc.prems have "reconcile n first ?L1 s = Some f" by simp
        from Suc.IH [OF this Suc.prems(2)] show ?thesis .
      next
        case neg
        have p: "pending_is_cutoff (flow_state (seek_range first ?L1 s))"
          using seek_range_pending [OF Suc.prems(2)] .
        show ?thesis
        proof (cases "seek_range first ?L1 s")
          case (Goes L2 s2)
          with neg False Inr Suc.prems have "reconcile n first L2 s2 = Some f" by simp
          moreover from p Goes have "pending_is_cutoff s2" by (simp add: flow_state_def)
          ultimately show ?thesis by (rule Suc.IH)
        next
          case (Returns s2)
          with neg False Inr Suc.prems p show ?thesis by auto
        next
          case (Fails e s2)
          with neg False Inr Suc.prems p show ?thesis by auto
        qed
      next
        case pos
        have p: "pending_is_cutoff (flow_state (next_range first ?L1 s))"
          using next_range_pending [OF Suc.prems(2)] .
        show ?thesis
        proof (cases "next_range first ?L1 s")
          case (Goes L2 s2)
          with pos False Inr Suc.prems have "reconcile n first L2 s2 = Some f" by simp
          moreover from p Goes have "pending_is_cutoff s2" by (simp add: flow_state_def)
          ultimately show ?thesis by (rule Suc.IH)
        next
          case (Returns s2)
          with pos False Inr Suc.prems p show ?thesis by auto
        next
          case (Fails e s2)
          with pos False Inr Suc.prems p show ?thesis by auto
        qed
      qed
    qed
  qed
qed


lemma leaf_path_emits:
  assumes "leaf_path E s = Ok s'" "pending_is_cutoff s" "itemPresent s'"
    "itemType s' \<noteq> CutoffStreamItem"
  shows "(itemType s' = StorageStreamItem
          \<and> (\<exists>key. k s = Some key \<and> 32 < length key \<and> take 40 key = accAddrHashWithInc s'
                \<and> storageKeyPart1 s' = Some (take 32 key)
                \<and> storageKeyPart2 s' = Some (drop 40 key)))
       \<or> (itemType s' = AccountStreamItem \<and> accountKey s' = k s
          \<and> accAddrHashWithInc s' =
                put_incarnation (NOT (acc_Incarnation (accountValue s')))
                  (go_copy (accAddrHashWithInc s) (bval (k s))))"
proof (cases "blen (k s) > HashLength \<and> \<not> bytes_HasPrefix (bval (k s)) (accAddrHashWithInc s)")
  case True
  then have "itemPresent s' = itemPresent s \<and> itemType s' = itemType s"
    using assms(1)
    by (auto simp: leaf_path_def split: if_splits prod.splits bool.splits)
  with assms show ?thesis by (simp add: pending_is_cutoff_def)
next
  case False
  show ?thesis
  proof (cases "blen (k s) > HashLength")
    case True
    with False have hp: "bytes_HasPrefix (bval (k s)) (accAddrHashWithInc s)" by simp
    from True obtain key where key: "k s = Some key" "32 < length key"
      by (cases "k s") (auto simp: blen_def HashLength_def)
    from hp key assms(2) have pre: "40 \<le> length key" "take 40 key = accAddrHashWithInc s"
      by (auto simp: bytes_HasPrefix_def bval_def pending_is_cutoff_def)
    have "itemType s' = StorageStreamItem \<and> accAddrHashWithInc s' = accAddrHashWithInc s
        \<and> storageKeyPart1 s' = Some (take 32 key) \<and> storageKeyPart2 s' = Some (drop 40 key)"
      using assms(1) True hp key pre
      by (auto simp: leaf_path_def Let_def storageKeyParts_def blen_def bval_def HashLength_def
          IncarnationLength_def split: prod.splits)
    with key pre show ?thesis by auto
  next
    case nb: False
    then have "itemType s' = AccountStreamItem \<and> accountKey s' = k s
          \<and> accAddrHashWithInc s' =
                put_incarnation (NOT (acc_Incarnation (accountValue s')))
                  (go_copy (accAddrHashWithInc s) (bval (k s)))"
      using assms(1)
      by (auto simp: leaf_path_def Let_def split: prod.splits option.splits if_splits)
    then show ?thesis by simp
  qed
qed

lemma emit_hash_fields:
  assumes "emit_hash E s = Ok s2"
  shows "itemPresent s2 \<and> ihK s2 = ihK s \<and> k s2 = k s
       \<and> accAddrHashWithInc s2 = accAddrHashWithInc s
       \<and> minKeyAsNibbles s2 = minKeyAsNibbles s
       \<and> (if blen (ihK s) > HashLength
          then itemType s2 = SHashStreamItem
             \<and> storageKeyPart1 s2 = fst (storageKeyParts (ihK s))
             \<and> storageKeyPart2 s2 = snd (storageKeyParts (ihK s))
          else itemType s2 = AHashStreamItem \<and> accountKey s2 = ihK s)"
  using assms
  by (auto simp: emit_hash_def Let_def split: prod.splits sum.splits if_splits)

lemma ih_path_changes_item:
  assumes "ih_path E L s = Ok s'"
    "\<not> (itemPresent s' = itemPresent s \<and> itemType s' = itemType s)"
  shows "\<exists>s2. emit_hash E (s\<lparr>minKeyAsNibbles := keyToNibblesWithoutInc (bval (l_minKey L)) []\<rparr>)
               = Ok s2
            \<and> s' = skip_subtree False s2
            \<and> \<not> rl s (keyToNibblesWithoutInc (bval (l_minKey L)) [])
            \<and> (blen (ihK s) > HashLength
                 \<longrightarrow> bytes_HasPrefix (bval (ihK s)) (accAddrHashWithInc s))"
proof -
  define s1 where "s1 = s\<lparr>minKeyAsNibbles := keyToNibblesWithoutInc (bval (l_minKey L)) []\<rparr>"
  consider
    (descend) "int (length (minKeyAsNibbles s1)) < l_cutoff L \<or> rl s1 (minKeyAsNibbles s1)"
  | (wrong) "\<not> int (length (minKeyAsNibbles s1)) < l_cutoff L" "\<not> rl s1 (minKeyAsNibbles s1)"
      "blen (ihK s1) > HashLength \<and> \<not> bytes_HasPrefix (bval (ihK s1)) (accAddrHashWithInc s1)"
  | (emit) "\<not> int (length (minKeyAsNibbles s1)) < l_cutoff L" "\<not> rl s1 (minKeyAsNibbles s1)"
      "\<not> (blen (ihK s1) > HashLength \<and> \<not> bytes_HasPrefix (bval (ihK s1)) (accAddrHashWithInc s1))"
    by blast
  then show ?thesis
  proof cases
    case descend
    then have "ih_path E L s =
        (case Next (ih s1) of ((ik, iv), icur) \<Rightarrow> Ok (s1\<lparr>ihK := ik, ihV := iv, ih := icur\<rparr>))"
      unfolding s1_def by (auto simp: ih_path_def Let_def)
    with assms(1) have "itemPresent s' = itemPresent s \<and> itemType s' = itemType s"
      by (auto simp: s1_def split: prod.splits)
    with assms show ?thesis by simp
  next
    case wrong
    then have "ih_path E L s =
        (if bytes_Compare (bval (ihK s1)) (accAddrHashWithInc s1) < 0 then
           (case SeekTo (accAddrHashWithInc s1) (ih s1) of
              ((ik, iv), icur) \<Rightarrow> Ok (s1\<lparr>ihK := ik, ihV := iv, ih := icur\<rparr>))
         else
           (case nextAccount (bval (ihK s1)) (nextAccountKey s1) of
              (True, out) \<Rightarrow>
                (case SeekTo out (ih s1) of
                   ((ik, iv), icur) \<Rightarrow>
                     Ok (s1\<lparr>nextAccountKey := out, ihK := ik, ihV := iv, ih := icur\<rparr>))
            | (False, out) \<Rightarrow> Ok (s1\<lparr>nextAccountKey := out, ihK := None\<rparr>)))"
      unfolding s1_def by (simp add: ih_path_def Let_def)
    with assms(1) have "itemPresent s' = itemPresent s \<and> itemType s' = itemType s"
      by (auto simp: s1_def split: prod.splits bool.splits if_splits)
    with assms show ?thesis by simp
  next
    case emit
    then have eq: "ih_path E L s =
        (case emit_hash E s1 of Err e s2 \<Rightarrow> Err e s2 | Ok s2 \<Rightarrow> Ok (skip_subtree False s2))"
      unfolding s1_def by (auto simp: ih_path_def Let_def)
    with assms(1) obtain s2 where "emit_hash E s1 = Ok s2" "s' = skip_subtree False s2"
      by (cases "emit_hash E s1") auto
    with emit show ?thesis by (auto simp: s1_def)
  qed
qed

lemma ih_path_emits:
  assumes "ih_path E L s = Ok s'" "pending_is_cutoff s" "itemPresent s'"
    "itemType s' \<noteq> CutoffStreamItem"
  shows "\<exists>s2. emit_hash E (s\<lparr>minKeyAsNibbles := keyToNibblesWithoutInc (bval (l_minKey L)) []\<rparr>)
               = Ok s2
            \<and> s' = skip_subtree False s2
            \<and> \<not> rl s (keyToNibblesWithoutInc (bval (l_minKey L)) [])
            \<and> (blen (ihK s) > HashLength
                 \<longrightarrow> bytes_HasPrefix (bval (ihK s)) (accAddrHashWithInc s))"
proof -
  from assms(2-4) have "\<not> (itemPresent s' = itemPresent s \<and> itemType s' = itemType s)"
    by (auto simp: pending_is_cutoff_def)
  from ih_path_changes_item [OF assms(1) this] show ?thesis .
qed

lemma nextSubtree_loop_all_ff:
  "\<forall>i<n. r ! i = 255 \<Longrightarrow> nextSubtree_loop n r = None"
proof (induction n arbitrary: r)
  case 0
  then show ?case by simp
next
  case (Suc n)
  have "\<forall>i<n. (r[n := 0]) ! i = 255" using Suc.prems by simp
  from Suc.IH [OF this] Suc.prems show ?case by simp
qed

lemma nextSubtree_all_ff: "\<forall>b\<in>set key. b = 255 \<Longrightarrow> nextSubtree key = None"
  by (simp add: nextSubtree_def nextSubtree_loop_all_ff)

lemma skip_subtree_overflow:
  "nextSubtree (bval (ihK s)) = None \<Longrightarrow>
     k (skip_subtree False s) = None \<and> ihK (skip_subtree False s) = None
     \<and> c (skip_subtree False s) = c s \<and> ih (skip_subtree False s) = ih s"
  by (simp add: skip_subtree_def)

lemma put_incarnation_account_key:
  assumes "length key = 32" "length arr = 40"
  shows "put_incarnation x (go_copy arr key) = key @ be64 x"
  using assms by (simp add: put_incarnation_def go_copy_def)

lemma iteration_emits:
  assumes it: "iteration E fuel first s = Some (Ok s')"
    and np: "\<not> itemPresent s" and len: "length (accAddrHashWithInc s) = 40"
    and ip: "itemPresent s'" and nc: "itemType s' \<noteq> CutoffStreamItem"
  shows "\<exists>L0 L s1. initial_locals first s = Inr L0 \<and> reconcile fuel first L0 s = Some (Goes L s1)
           \<and> iteration_body E L s1 = Ok s' \<and> pending_is_cutoff s1"
proof -
  have p: "pending_is_cutoff s" using np len by (simp add: pending_is_cutoff_def)
  from it obtain L0 where L0: "initial_locals first s = Inr L0"
    by (cases "initial_locals first s") (auto simp: iteration_def)
  from it L0 obtain f where f: "reconcile fuel first L0 s = Some f"
    by (cases "reconcile fuel first L0 s") (auto simp: iteration_def)
  have pf: "pending_is_cutoff (flow_state f)" using reconcile_pending [OF f p] .
  show ?thesis
  proof (cases f)
    case (Returns s2)
    with it L0 f have "s2 = s'" by (simp add: iteration_def)
    with pf Returns ip nc show ?thesis by (simp add: flow_state_def pending_is_cutoff_def)
  next
    case (Fails e s2)
    with it L0 f show ?thesis by (simp add: iteration_def)
  next
    case (Goes L s1)
    with it L0 f have "iteration_body E L s1 = Ok s'" by (simp add: iteration_def)
    with L0 f Goes pf show ?thesis by (auto simp: flow_state_def)
  qed
qed


text \<open>
  Claim C4. Whenever a step emits a \<open>StorageStreamItem\<close> or a \<open>SHashStreamItem\<close>, the
  emitted key (the key of the cursor \<open>C\<close>, or of the cursor \<open>IH\<close> for a hash, with which
  the loop ended) is longer than 32 bytes and its first 40 bytes are
  \<^verbatim>\<open>accAddrHashWithInc\<close>; the item carries the first 32 bytes and the bytes from 40 on.
  So no storage item of another account or incarnation is emitted. When a step emits an
  account leaf with a 32-byte key, \<^verbatim>\<open>accAddrHashWithInc\<close> becomes that key followed by
  the big-endian bytes of the complemented incarnation of the account.
\<close>

theorem iteration_storage_item_under_current_account:
  assumes "iteration E fuel first s = Some (Ok s')"
    and "\<not> itemPresent s" and "length (accAddrHashWithInc s) = 40"
    and "itemPresent s'"
  shows "(itemType s' = StorageStreamItem \<or> itemType s' = SHashStreamItem \<longrightarrow>
           (\<exists>L0 L s1 key.
              initial_locals first s = Inr L0 \<and> reconcile fuel first L0 s = Some (Goes L s1)
              \<and> (if itemType s' = StorageStreamItem then k s1 = Some key else ihK s1 = Some key)
              \<and> 32 < length key \<and> take 40 key = accAddrHashWithInc s'
              \<and> storageKeyPart1 s' = Some (take 32 key)
              \<and> storageKeyPart2 s' = Some (drop 40 key)))
       \<and> (itemType s' = AccountStreamItem \<longrightarrow>
           (\<forall>key. accountKey s' = Some key \<and> length key = 32 \<longrightarrow>
              accAddrHashWithInc s' = key @ be64 (NOT (acc_Incarnation (accountValue s')))))"
proof (intro conjI impI)
  assume ty: "itemType s' = StorageStreamItem \<or> itemType s' = SHashStreamItem"
  then have nc: "itemType s' \<noteq> CutoffStreamItem" by auto
  from iteration_emits [OF assms nc] obtain L0 L s1 where
    L0: "initial_locals first s = Inr L0" and
    rc: "reconcile fuel first L0 s = Some (Goes L s1)" and
    body: "iteration_body E L s1 = Ok s'" and p1: "pending_is_cutoff s1" by blast
  show "\<exists>L0 L s1 key.
              initial_locals first s = Inr L0 \<and> reconcile fuel first L0 s = Some (Goes L s1)
              \<and> (if itemType s' = StorageStreamItem then k s1 = Some key else ihK s1 = Some key)
              \<and> 32 < length key \<and> take 40 key = accAddrHashWithInc s'
              \<and> storageKeyPart1 s' = Some (take 32 key)
              \<and> storageKeyPart2 s' = Some (drop 40 key)"
  proof (cases "l_isIH L")
    case False
    with body have "leaf_path E s1 = Ok s'" by (simp add: iteration_body_def)
    from leaf_path_emits [OF this p1 assms(4) nc] ty
    obtain key where "itemType s' = StorageStreamItem" "k s1 = Some key" "32 < length key"
      "take 40 key = accAddrHashWithInc s'" "storageKeyPart1 s' = Some (take 32 key)"
      "storageKeyPart2 s' = Some (drop 40 key)" by auto
    with L0 rc show ?thesis by auto
  next
    case True
    with body have "ih_path E L s1 = Ok s'" by (simp add: iteration_body_def)
    from ih_path_emits [OF this p1 assms(4) nc] obtain s2 where
      e: "emit_hash E (s1\<lparr>minKeyAsNibbles := keyToNibblesWithoutInc (bval (l_minKey L)) []\<rparr>)
            = Ok s2" and
      s': "s' = skip_subtree False s2" and
      hp: "blen (ihK s1) > HashLength \<longrightarrow> bytes_HasPrefix (bval (ihK s1)) (accAddrHashWithInc s1)"
      by blast
    from emit_hash_fields [OF e] s' ty
    have big: "blen (ihK s1) > HashLength" and sh: "itemType s' = SHashStreamItem"
      and parts: "storageKeyPart1 s' = fst (storageKeyParts (ihK s1))"
        "storageKeyPart2 s' = snd (storageKeyParts (ihK s1))"
      and acc: "accAddrHashWithInc s' = accAddrHashWithInc s1"
      by (auto split: if_splits)
    from big obtain key where key: "ihK s1 = Some key" "32 < length key"
      by (cases "ihK s1") (auto simp: blen_def HashLength_def)
    from hp big key p1 have pre: "40 \<le> length key" "take 40 key = accAddrHashWithInc s1"
      by (auto simp: bytes_HasPrefix_def bval_def pending_is_cutoff_def)
    from parts key pre have "storageKeyPart1 s' = Some (take 32 key)"
      "storageKeyPart2 s' = Some (drop 40 key)"
      by (simp_all add: storageKeyParts_def blen_def bval_def HashLength_def
          IncarnationLength_def)
    with L0 rc sh key pre acc show ?thesis by auto
  qed
next
  assume ty: "itemType s' = AccountStreamItem"
  then have nc: "itemType s' \<noteq> CutoffStreamItem" by auto
  from iteration_emits [OF assms nc] obtain L0 L s1 where
    body: "iteration_body E L s1 = Ok s'" and p1: "pending_is_cutoff s1" by blast
  show "\<forall>key. accountKey s' = Some key \<and> length key = 32 \<longrightarrow>
              accAddrHashWithInc s' = key @ be64 (NOT (acc_Incarnation (accountValue s')))"
  proof (cases "l_isIH L")
    case False
    with body have "leaf_path E s1 = Ok s'" by (simp add: iteration_body_def)
    from leaf_path_emits [OF this p1 assms(4) nc] ty
    have "accountKey s' = k s1" "accAddrHashWithInc s' =
                put_incarnation (NOT (acc_Incarnation (accountValue s')))
                  (go_copy (accAddrHashWithInc s1) (bval (k s1)))" by auto
    with p1 show ?thesis
      by (auto simp: put_incarnation_account_key pending_is_cutoff_def bval_def)
  next
    case True
    with body have "ih_path E L s1 = Ok s'" by (simp add: iteration_body_def)
    from ih_path_emits [OF this p1 assms(4) nc] obtain s2 where
      e: "emit_hash E (s1\<lparr>minKeyAsNibbles := keyToNibblesWithoutInc (bval (l_minKey L)) []\<rparr>)
            = Ok s2" and
      s': "s' = skip_subtree False s2" by blast
    from emit_hash_fields [OF e] s' ty show ?thesis by (auto split: if_splits)
  qed
qed

theorem iteration_storage_item_under_current_account_witness:
  "iteration example_env 3 False (second_step_input storage_kv [[]] [0])
     = Some (Ok (ok_state (iteration example_env 3 False
                   (second_step_input storage_kv [[]] [0]))))
   \<and> \<not> itemPresent (second_step_input storage_kv [[]] [0])
   \<and> length (accAddrHashWithInc (second_step_input storage_kv [[]] [0])) = 40
   \<and> itemPresent (ok_state (iteration example_env 3 False
                     (second_step_input storage_kv [[]] [0])))
   \<and> itemType (ok_state (iteration example_env 3 False
                   (second_step_input storage_kv [[]] [0]))) = StorageStreamItem
   \<and> (\<exists>key. 32 < length key
          \<and> take 40 key = accAddrHashWithInc (ok_state (iteration example_env 3 False
                                                (second_step_input storage_kv [[]] [0])))
          \<and> storageKeyPart1 (ok_state (iteration example_env 3 False
                               (second_step_input storage_kv [[]] [0]))) = Some (take 32 key))"
proof -
  let ?s = "second_step_input storage_kv [[]] [0]"
  let ?r = "iteration example_env 3 False ?s"
  have "is_ok ?r" by code_simp
  then have h1: "?r = Some (Ok (ok_state ?r))" by (rule is_ok_collapse)
  have h2: "\<not> itemPresent ?s" by code_simp
  have h3: "length (accAddrHashWithInc ?s) = 40" by code_simp
  have h4: "itemPresent (ok_state ?r)" by code_simp
  have h5: "itemType (ok_state ?r) = StorageStreamItem" by code_simp
  from iteration_storage_item_under_current_account [OF h1 h2 h3 h4] h5
  have "\<exists>key. 32 < length key \<and> take 40 key = accAddrHashWithInc (ok_state ?r)
          \<and> storageKeyPart1 (ok_state ?r) = Some (take 32 key)"
    by blast
  with h1 h2 h3 h4 h5 show ?thesis by blast
qed

section \<open>The merge step: overflow of \<^verbatim>\<open>nextSubtree\<close>\<close>

lemma iteration_overflow:
  assumes "iteration E fuel first s = Some (Ok s')"
    and "\<not> itemPresent s" and "length (accAddrHashWithInc s) = 40"
    and "itemPresent s'"
    and "(itemType s' = AHashStreamItem \<and> (\<forall>b\<in>set (bval (accountKey s')). b = 255))
       \<or> (itemType s' = SHashStreamItem
          \<and> (\<forall>b\<in>set (accAddrHashWithInc s' @ bval (storageKeyPart2 s')). b = 255))"
  shows "k s' = None \<and> ihK s' = None"
proof -
  from assms(5) have nc: "itemType s' \<noteq> CutoffStreamItem" by auto
  from iteration_emits [OF assms(1-4) nc] obtain L0 L s1 where
    body: "iteration_body E L s1 = Ok s'" and p1: "pending_is_cutoff s1" by blast
  have ih: "ih_path E L s1 = Ok s'"
  proof (cases "l_isIH L")
    case True
    with body show ?thesis by (simp add: iteration_body_def)
  next
    case False
    with body have "leaf_path E s1 = Ok s'" by (simp add: iteration_body_def)
    from leaf_path_emits [OF this p1 assms(4) nc] assms(5) show ?thesis by auto
  qed
  from ih_path_emits [OF ih p1 assms(4) nc] obtain s2 where
      e: "emit_hash E (s1\<lparr>minKeyAsNibbles := keyToNibblesWithoutInc (bval (l_minKey L)) []\<rparr>)
            = Ok s2" and
      s': "s' = skip_subtree False s2" and
      hp: "blen (ihK s1) > HashLength \<longrightarrow> bytes_HasPrefix (bval (ihK s1)) (accAddrHashWithInc s1)"
      by blast
  note ef = emit_hash_fields [OF e]
  have ff: "\<forall>b\<in>set (bval (ihK s1)). b = 255"
  proof (cases "blen (ihK s1) > HashLength")
    case False
    with ef s' have "itemType s' = AHashStreamItem" "accountKey s' = ihK s1" by auto
    with assms(5) show ?thesis by auto
  next
    case True
    with ef s' have sh: "itemType s' = SHashStreamItem"
      and parts: "storageKeyPart2 s' = snd (storageKeyParts (ihK s1))"
      and acc: "accAddrHashWithInc s' = accAddrHashWithInc s1" by auto
    from True obtain key where key: "ihK s1 = Some key" "32 < length key"
      by (cases "ihK s1") (auto simp: blen_def HashLength_def)
    from hp True key p1 have pre: "40 \<le> length key" "take 40 key = accAddrHashWithInc s1"
      by (auto simp: bytes_HasPrefix_def bval_def pending_is_cutoff_def)
    from parts key pre have "storageKeyPart2 s' = Some (drop 40 key)"
      by (simp add: storageKeyParts_def blen_def bval_def HashLength_def IncarnationLength_def)
    with pre acc have "accAddrHashWithInc s' @ bval (storageKeyPart2 s') = key"
      using append_take_drop_id [of 40 key] by (simp add: bval_def)
    with assms(5) sh key show ?thesis by (auto simp: bval_def)
  qed
  have "ihK s2 = ihK s1" using ef by simp
  with ff have "nextSubtree (bval (ihK s2)) = None" by (simp add: nextSubtree_all_ff)
  from skip_subtree_overflow [OF this] s' show ?thesis by simp
qed


lemma next_range_last:
  assumes "Suc (rangeIdx s) = length (dbPrefixes s)"
  shows "next_range False L s =
     Returns (s\<lparr>rangeIdx := Suc (rangeIdx s), itemPresent := True,
               itemType := CutoffStreamItem, streamCutoff := l_cutoff L\<rparr>)"
  using assms by (simp add: next_range_def Let_def)

lemma next_range_more:
  assumes "Suc (rangeIdx s) < length (dbPrefixes s)" "ranges_ok s"
  shows "\<exists>L2 s3. next_range False L s = Goes L2 s3 \<and> l_minKey L2 = l_minKey L
      \<and> l_cmp L2 = l_cmp L \<and> rangeIdx s3 = Suc (rangeIdx s) \<and> dbPrefixes s3 = dbPrefixes s
      \<and> ranges_ok s3 \<and> c s3 = c s \<and> ih s3 = ih s \<and> k s3 = k s \<and> ihK s3 = ihK s"
proof -
  let ?i = "Suc (rangeIdx s)"
  let ?s2 = "s\<lparr>rangeIdx := ?i, itemPresent := True, itemType := CutoffStreamItem,
               streamCutoff := l_cutoff L\<rparr>"
  let ?p = "dbPrefixes s ! ?i"
  have i: "index_at (fixedbytes s) (int ?i) = Inr (fixedbytes s ! ?i)"
    "index_at (masks s) (int ?i) = Inr (masks s ! ?i)"
    "index_at (dbPrefixes s) (int ?i) = Inr ?p"
    "index_at (cutoffs s) (int ?i) = Inr (cutoffs s ! ?i)"
    using assms by (simp_all add: index_at_def ranges_ok_def del: of_nat_Suc)
  have pin: "?p \<in> set (dbPrefixes s)" using assms(1) by simp
  show ?thesis
  proof (cases "length ?p > HashLength")
    case False
    with i assms show ?thesis
      by (simp add: next_range_def Let_def ranges_ok_def)
  next
    case True
    with pin assms(2) have "40 \<le> length ?p" by (auto simp: ranges_ok_def HashLength_def)
    then have "copy_prefix_to_accAddrHashWithInc ?p ?s2 =
        Inr (?s2\<lparr>accAddrHashWithInc := go_copy (accAddrHashWithInc ?s2) (take 40 ?p)\<rparr>)"
      by (simp add: copy_prefix_to_accAddrHashWithInc_def slice_to_def HashLength_def
          IncarnationLength_def)
    with True i assms show ?thesis
      by (simp add: next_range_def Let_def ranges_ok_def)
  qed
qed

lemma reconcile_exhausted:
  assumes "d = length (dbPrefixes s) - rangeIdx s" "rangeIdx s < length (dbPrefixes s)"
    and "l_minKey L = None" "l_cmp L \<noteq> 0" "ranges_ok s"
  shows "\<exists>s'. reconcile (Suc d) False L s = Some (Returns s')
      \<and> itemPresent s' \<and> itemType s' = CutoffStreamItem
      \<and> rangeIdx s' = length (dbPrefixes s) \<and> dbPrefixes s' = dbPrefixes s
      \<and> c s' = c s \<and> ih s' = ih s \<and> k s' = k s \<and> ihK s' = ihK s"
  using assms
proof (induction d arbitrary: L s)
  case 0
  then show ?case by simp
next
  case (Suc d)
  let ?L1 = "L\<lparr>l_cmp := 1\<rparr>"
  have rc: "range_cmp False L = Inr 1" using Suc.prems by (simp add: range_cmp_def)
  show ?case
  proof (cases "Suc (rangeIdx s) = length (dbPrefixes s)")
    case True
    from next_range_last [OF True, of ?L1] rc Suc.prems True
    show ?thesis by (simp add: Let_def)
  next
    case False
    with Suc.prems have lt: "Suc (rangeIdx s) < length (dbPrefixes s)" by simp
    from next_range_more [OF lt Suc.prems(5), of ?L1] obtain L2 s3 where
      n: "next_range False ?L1 s = Goes L2 s3" and l2: "l_minKey L2 = None" "l_cmp L2 \<noteq> 0"
      and s3: "rangeIdx s3 = Suc (rangeIdx s)" "dbPrefixes s3 = dbPrefixes s" "ranges_ok s3"
        "c s3 = c s" "ih s3 = ih s" "k s3 = k s" "ihK s3 = ihK s"
      using Suc.prems(3) by auto
    have d: "d = length (dbPrefixes s3) - rangeIdx s3" using Suc.prems(1) s3 by simp
    have r3: "rangeIdx s3 < length (dbPrefixes s3)" using lt s3 by simp
    from Suc.IH [OF d r3 l2 s3(3)] obtain s' where
      "reconcile (Suc d) False L2 s3 = Some (Returns s')" "itemPresent s'"
      "itemType s' = CutoffStreamItem" "rangeIdx s' = length (dbPrefixes s3)"
      "dbPrefixes s' = dbPrefixes s3" "c s' = c s3" "ih s' = ih s3" "k s' = k s3"
      "ihK s' = ihK s3" by blast
    with rc n Suc.prems(4) s3 show ?thesis by (simp add: Let_def)
  qed
qed

lemma iteration_exhausted:
  assumes "k t = None" "ihK t = None" "rangeIdx t < length (dbPrefixes t)" "ranges_ok t"
  shows "\<exists>t'. iteration E (Suc (length (dbPrefixes t) - rangeIdx t)) False t = Some (Ok t')
      \<and> itemPresent t' \<and> itemType t' = CutoffStreamItem
      \<and> rangeIdx t' = length (dbPrefixes t)
      \<and> c t' = c t \<and> ih t' = ih t \<and> k t' = None \<and> ihK t' = None"
proof -
  let ?i = "rangeIdx t"
  let ?L0 = "\<lparr>l_isIH = False, l_minKey = None, l_fixedbytes = fixedbytes t ! ?i,
              l_cutoff = cutoffs t ! ?i, l_dbPrefix = dbPrefixes t ! ?i, l_mask = masks t ! ?i,
              l_cmp = - 1\<rparr>"
  have L0: "initial_locals False t = Inr ?L0"
    using assms by (simp add: initial_locals_def keyIsBefore_def index_at_def ranges_ok_def)
  from reconcile_exhausted [OF refl assms(3), of ?L0] assms(4)
  obtain t' where "reconcile (Suc (length (dbPrefixes t) - rangeIdx t)) False ?L0 t
        = Some (Returns t')" "itemPresent t'" "itemType t' = CutoffStreamItem"
      "rangeIdx t' = length (dbPrefixes t)" "c t' = c t" "ih t' = ih t" "k t' = k t"
      "ihK t' = ihK t" by auto
  with L0 assms(1,2) show ?thesis by (simp add: iteration_def)
qed


text \<open>
  Claim C5. When a step emits a cached hash whose key \<open>ihK\<close> consists of \<open>0xff\<close> bytes
  only (for an account-level hash the key is the one the item carries; for a storage-level
  hash it is \<^verbatim>\<open>accAddrHashWithInc\<close> followed by the second key part), the step leaves both
  cursor keys \<open>k\<close> and \<open>ihK\<close> \<^verbatim>\<open>nil\<close>. A hash is only emitted when the retention predicate
  returned false, so no condition on it is needed. From any loader whose two cursor keys
  are \<^verbatim>\<open>nil\<close>, the next step returns with a \<open>Cutoff\<close> item and the range index at the
  number of ranges, without a call on either cursor: no further item of either cursor is
  emitted.
\<close>

theorem iteration_overflow_ends_range:
  assumes "iteration E fuel first s = Some (Ok s')"
    and "\<not> itemPresent s" and "length (accAddrHashWithInc s) = 40"
    and "itemPresent s'"
    and "(itemType s' = AHashStreamItem \<and> (\<forall>b\<in>set (bval (accountKey s')). b = 255))
       \<or> (itemType s' = SHashStreamItem
          \<and> (\<forall>b\<in>set (accAddrHashWithInc s' @ bval (storageKeyPart2 s')). b = 255))"
  shows "k s' = None \<and> ihK s' = None
    \<and> (\<forall>t. k t = None \<and> ihK t = None \<and> rangeIdx t < length (dbPrefixes t) \<and> ranges_ok t \<longrightarrow>
         (\<exists>t'. iteration E (Suc (length (dbPrefixes t) - rangeIdx t)) False t = Some (Ok t')
            \<and> itemPresent t' \<and> itemType t' = CutoffStreamItem
            \<and> rangeIdx t' = length (dbPrefixes t)
            \<and> c t' = c t \<and> ih t' = ih t \<and> k t' = None \<and> ihK t' = None))"
  using iteration_overflow [OF assms] iteration_exhausted [of _ E] by blast

theorem iteration_overflow_ends_range_witness:
  "iteration example_env 3 False (second_step_input overflow_kv [[]] [0])
     = Some (Ok (ok_state (iteration example_env 3 False
                   (second_step_input overflow_kv [[]] [0]))))
   \<and> \<not> itemPresent (second_step_input overflow_kv [[]] [0])
   \<and> length (accAddrHashWithInc (second_step_input overflow_kv [[]] [0])) = 40
   \<and> itemPresent (ok_state (iteration example_env 3 False
                     (second_step_input overflow_kv [[]] [0])))
   \<and> itemType (ok_state (iteration example_env 3 False
                   (second_step_input overflow_kv [[]] [0]))) = AHashStreamItem
   \<and> accountKey (ok_state (iteration example_env 3 False
                     (second_step_input overflow_kv [[]] [0]))) = Some [255]
   \<and> k (ok_state (iteration example_env 3 False
            (second_step_input overflow_kv [[]] [0]))) = None
   \<and> ihK (ok_state (iteration example_env 3 False
              (second_step_input overflow_kv [[]] [0]))) = None
   \<and> rangeIdx (second_step_input overflow_kv [[]] [0])
       < length (dbPrefixes (second_step_input overflow_kv [[]] [0]))
   \<and> ranges_ok (ok_state (iteration example_env 3 False
                    (second_step_input overflow_kv [[]] [0])))
   \<and> (\<exists>t'. iteration example_env 2 False
               ((ok_state (iteration example_env 3 False
                   (second_step_input overflow_kv [[]] [0])))\<lparr>itemPresent := False\<rparr>)
             = Some (Ok t')
          \<and> itemType t' = CutoffStreamItem \<and> rangeIdx t' = 1)"
proof -
  let ?s = "second_step_input overflow_kv [[]] [0]"
  let ?r = "iteration example_env 3 False ?s"
  let ?t = "(ok_state ?r)\<lparr>itemPresent := False\<rparr>"
  have "is_ok ?r" by code_simp
  then have h1: "?r = Some (Ok (ok_state ?r))" by (rule is_ok_collapse)
  have h2: "\<not> itemPresent ?s" by code_simp
  have h3: "length (accAddrHashWithInc ?s) = 40" by code_simp
  have h4: "itemPresent (ok_state ?r)" by code_simp
  have h5: "itemType (ok_state ?r) = AHashStreamItem" by code_simp
  have h6: "accountKey (ok_state ?r) = Some [255]" by code_simp
  have h7: "rangeIdx ?s < length (dbPrefixes ?s)" by code_simp
  have h8: "ranges_ok (ok_state ?r)" by code_simp
  have h9: "rangeIdx ?t = 0 \<and> length (dbPrefixes ?t) = 1" by code_simp
  have h10: "ranges_ok ?t" using h8 by (simp add: ranges_ok_def)
  have h5': "(itemType (ok_state ?r) = AHashStreamItem
         \<and> (\<forall>b\<in>set (bval (accountKey (ok_state ?r))). b = 255))
       \<or> (itemType (ok_state ?r) = SHashStreamItem
          \<and> (\<forall>b\<in>set (accAddrHashWithInc (ok_state ?r) @ bval (storageKeyPart2 (ok_state ?r))).
                b = 255))"
    using h5 h6 by (simp add: bval_def)
  note main = iteration_overflow_ends_range [OF h1 h2 h3 h4 h5']
  from main have nil: "k (ok_state ?r) = None" "ihK (ok_state ?r) = None" by blast+
  from main have "k ?t = None \<and> ihK ?t = None \<and> rangeIdx ?t < length (dbPrefixes ?t)
              \<and> ranges_ok ?t \<longrightarrow>
         (\<exists>t'. iteration example_env (Suc (length (dbPrefixes ?t) - rangeIdx ?t)) False ?t
                  = Some (Ok t')
            \<and> itemPresent t' \<and> itemType t' = CutoffStreamItem
            \<and> rangeIdx t' = length (dbPrefixes ?t)
            \<and> c t' = c ?t \<and> ih t' = ih ?t \<and> k t' = None \<and> ihK t' = None)"
    by blast
  with nil h9 h10
  have "\<exists>t'. iteration example_env 2 False ?t = Some (Ok t')
          \<and> itemType t' = CutoffStreamItem \<and> rangeIdx t' = 1"
    by (auto simp: numeral_2_eq_2)
  with h1 h2 h3 h4 h5 h6 h7 h8 nil show ?thesis by blast
qed

section \<open>The walker: which witness length a hash carries\<close>

lemma calls_ok_Nil [simp]: "calls_ok sites s []"
  by (simp add: calls_ok_def)

lemma call_ok_mono: "call_ok A s x \<Longrightarrow> A \<subseteq> B \<Longrightarrow> call_ok B s x"
  by (auto simp: call_ok_def split: hb_call.splits)

lemma calls_ok_append:
  "calls_ok A s xs \<Longrightarrow> calls_ok B s ys \<Longrightarrow> calls_ok (A \<union> B) s (xs @ ys)"
  using call_ok_mono [of A s _ "A \<union> B"] call_ok_mono [of B s _ "A \<union> B"]
  by (auto simp: calls_ok_def)

lemma calls_ok_mono: "calls_ok A s xs \<Longrightarrow> A \<subseteq> B \<Longrightarrow> calls_ok B s xs"
  using call_ok_mono by (auto simp: calls_ok_def)

lemma wl_le_refl [simp]: "wl_le s s"
  by (simp add: wl_le_def)

lemma wl_le_trans: "wl_le s2 s1 \<Longrightarrow> wl_le s1 s \<Longrightarrow> wl_le s2 s"
  by (auto simp: wl_le_def)

lemma call_ok_wl_le: "call_ok A s1 x \<Longrightarrow> wl_le s1 s \<Longrightarrow> call_ok A s x"
  by (auto simp: call_ok_def dl_ok_def wl_le_def
      split: hb_call.splits GenStructStepData.splits call_site.splits)

lemma calls_ok_wl_le: "calls_ok A s1 xs \<Longrightarrow> wl_le s1 s \<Longrightarrow> calls_ok A s xs"
  using call_ok_wl_le by (auto simp: calls_ok_def)

lemma eff_refl [simp]: "eff A s s"
  by (simp add: eff_def)

lemma eff_trans: "eff A s s1 \<Longrightarrow> eff B s1 s2 \<Longrightarrow> eff (A \<union> B) s s2"
proof -
  assume a: "eff A s s1" and b: "eff B s1 s2"
  from a obtain n1 where n1: "hb s1 = hb s @ n1" "calls_ok A s n1" "wl_le s1 s"
    by (auto simp: eff_def)
  from b obtain n2 where n2: "hb s2 = hb s1 @ n2" "calls_ok B s1 n2" "wl_le s2 s1"
    by (auto simp: eff_def)
  have "calls_ok B s n2" using calls_ok_wl_le [OF n2(2) n1(3)] .
  with n1 have "calls_ok (A \<union> B) s (n1 @ n2)" by (simp add: calls_ok_append)
  moreover have "hb s2 = hb s @ (n1 @ n2)" using n1 n2 by simp
  moreover have "wl_le s2 s" using wl_le_trans [OF n2(3) n1(3)] .
  ultimately show ?thesis unfolding eff_def by blast
qed

lemma eff_mono: "eff A s s' \<Longrightarrow> A \<subseteq> B \<Longrightarrow> eff B s s'"
  using calls_ok_mono by (auto simp: eff_def)

lemma eff_quiet: "hb s' = hb s \<Longrightarrow> wl_le s' s \<Longrightarrow> eff A s s'"
  by (simp add: eff_def)

lemma eff_GenStructStep:
  assumes "\<forall>h dl. d = HashData h dl \<longrightarrow> dl_ok s site dl"
  shows "eff {site} s (result_state (GenStructStep E site cu su d s))"
  using assms
  by (auto simp: eff_def GenStructStep_def Let_def result_state_def wl_le_def calls_ok_def
      call_ok_def split: GenStructStepData.splits)

lemma eff_finaliseStorageRoot:
  "eff {InFinaliseStorageRoot} s (snd (result_state (finaliseStorageRoot E cutoff s)))"
  by (auto simp: finaliseStorageRoot_def Let_def result_state_def wl_le_def eff_def
      GenStructStep_def storage_data_def calls_ok_def call_ok_def dl_ok_def
      split: sum.splits prod.splits result.splits if_splits)

lemma eff_close_storage:
  "eff {InFinaliseStorageRoot} s (result_state (close_storage E s))"
proof -
  obtain ok s1 where r: "result_state (finaliseStorageRoot E (int (2 * HashLength)) s) = (ok, s1)"
    by (metis surj_pair)
  with eff_finaliseStorageRoot [of s E "int (2 * HashLength)"]
  have e: "eff {InFinaliseStorageRoot} s s1" by simp
  have "hb (result_state (close_storage E s)) = hb s1
      \<and> wl_le (result_state (close_storage E s)) s1"
    using r
    by (auto simp: close_storage_def result_state_def wl_le_def split: result.splits)
  then have "eff {} s1 (result_state (close_storage E s))" by (simp add: eff_quiet)
  from eff_trans [OF e this] show ?thesis by simp
qed

lemma WalkerStorage_effect:
  "(\<exists>new. hb (result_state (WalkerStorage E isIH r p1 p2 v' h w s)) = hb s @ new
          \<and> calls_ok {InWalkerStorage} s new)
   \<and> (\<forall>s'. WalkerStorage E isIH r p1 p2 v' h w s = Ok s' \<longrightarrow>
          wasIHStorage s' = isIH \<and> (isIH \<longrightarrow> witnessLenStorage s' = w)
          \<and> storageWitnessLen s' = storageWitnessLen s \<and> wasIH s' = wasIH s
          \<and> witnessLenAccount s' = witnessLenAccount s
          \<and> accountWitnessLen s' = accountWitnessLen s)"
  by (auto simp: WalkerStorage_def Let_def result_state_def
      GenStructStep_def storage_data_def calls_ok_def call_ok_def dl_ok_def
      split: sum.splits prod.splits result.splits if_splits)

lemma eff_WalkerAccount_mid:
  "eff {InFinaliseStorageRoot, InWalkerAccount} s
     (result_state
        (if length (curr s) > 0 then
                 (case (if wasIH s then
                          (let s4 = s\<lparr>hashData_Hash := go_copy (hashData_Hash s) (val s),
                                      hashData_DataLen := witnessLenAccount s\<rparr>
                           in Ok (HashData (hashData_Hash s4) (hashData_DataLen s4), s4))
                        else
                          (case close_storage E s of
                             Err e s' \<Rightarrow> Err e (LeafData [], s')
                           | Ok s4 \<Rightarrow>
                               (let s5 = fill_accData E s4
                                in Ok (AccountData (accData s5), s5)))) of
                    Err e (data, s') \<Rightarrow> Err e s'
                  | Ok (data, s6) \<Rightarrow>
                      (let s7 = s6\<lparr>wasIHStorage := False, currStorage := [], succStorage := []\<rparr>
                       in case GenStructStep E InWalkerAccount (curr s7) (succ s7) data s7 of
                            Err e s' \<Rightarrow> Err e s'
                          | Ok s8 \<Rightarrow> Ok (s8\<lparr>accData := (accData s8)\<lparr>ad_FieldSet := 0\<rparr>\<rparr>)))
               else Ok s))"
  (is "eff ?S s (result_state ?mid)")
proof (cases "length (curr s) > 0")
  case False
  then show ?thesis by (simp add: result_state_def)
next
  case True
  show ?thesis
  proof (cases "wasIH s")
    case w: True
    let ?s4 = "s\<lparr>hashData_Hash := go_copy (hashData_Hash s) (val s),
                  hashData_DataLen := witnessLenAccount s\<rparr>"
    let ?s7 = "?s4\<lparr>wasIHStorage := False, currStorage := [], succStorage := []\<rparr>"
    let ?d = "HashData (hashData_Hash ?s4) (hashData_DataLen ?s4)"
    let ?g = "GenStructStep E InWalkerAccount (curr ?s7) (succ ?s7) ?d ?s7"
    have e1: "eff {} s ?s7" by (simp add: eff_quiet wl_le_def)
    have "\<forall>h dl. ?d = HashData h dl \<longrightarrow> dl_ok ?s7 InWalkerAccount dl"
      using w by (simp add: dl_ok_def)
    from eff_GenStructStep [OF this, of E "curr ?s7" "succ ?s7"]
    have e2: "eff {InWalkerAccount} ?s7 (result_state ?g)" .
    have "hb (result_state ?mid) = hb (result_state ?g)
        \<and> wl_le (result_state ?mid) (result_state ?g)"
      using True w
      by (auto simp: Let_def result_state_def wl_le_def split: result.splits)
    then have e3: "eff {} (result_state ?g) (result_state ?mid)" by (simp add: eff_quiet)
    from eff_trans [OF eff_trans [OF e1 e2] e3] show ?thesis
      by (rule eff_mono) auto
  next
    case w: False
    show ?thesis
    proof (cases "close_storage E s")
      case (Err e s')
      with eff_close_storage [of s E] have "eff {InFinaliseStorageRoot} s s'"
        by (simp add: result_state_def)
      moreover have "result_state ?mid = s'"
        using True w Err by (simp add: result_state_def)
      ultimately show ?thesis by (auto intro: eff_mono)
    next
      case (Ok s4)
      with eff_close_storage [of s E] have e0: "eff {InFinaliseStorageRoot} s s4"
        by (simp add: result_state_def)
      let ?s5 = "fill_accData E s4"
      let ?s7 = "?s5\<lparr>wasIHStorage := False, currStorage := [], succStorage := []\<rparr>"
      let ?d = "AccountData (accData ?s5)"
      let ?g = "GenStructStep E InWalkerAccount (curr ?s7) (succ ?s7) ?d ?s7"
      have e1: "eff {} s4 ?s7"
        by (simp add: eff_quiet wl_le_def fill_accData_def Let_def)
      have "\<forall>h dl. ?d = HashData h dl \<longrightarrow> dl_ok ?s7 InWalkerAccount dl" by simp
      from eff_GenStructStep [OF this, of E "curr ?s7" "succ ?s7"]
      have e2: "eff {InWalkerAccount} ?s7 (result_state ?g)" .
      have "hb (result_state ?mid) = hb (result_state ?g)
          \<and> wl_le (result_state ?mid) (result_state ?g)"
        using True w Ok
        by (auto simp: Let_def result_state_def wl_le_def split: result.splits)
      then have e3: "eff {} (result_state ?g) (result_state ?mid)" by (simp add: eff_quiet)
      from eff_trans [OF eff_trans [OF eff_trans [OF e0 e1] e2] e3] show ?thesis
        by (rule eff_mono) auto
    qed
  qed
qed


lemma WalkerAccount_effect:
  "(\<exists>new. hb (result_state (WalkerAccount E isIH r key v' h w s)) = hb s @ new
          \<and> calls_ok {InFinaliseStorageRoot, InWalkerAccount} s new)
   \<and> (\<forall>s'. WalkerAccount E isIH r key v' h w s = Ok s' \<longrightarrow>
          wasIH s' = isIH \<and> (isIH \<longrightarrow> witnessLenAccount s' = w)
          \<and> (wasIHStorage s' \<longrightarrow> wasIHStorage s)
          \<and> witnessLenStorage s' = witnessLenStorage s
          \<and> storageWitnessLen s' = storageWitnessLen s
          \<and> accountWitnessLen s' = accountWitnessLen s)"
proof -
  define s3 where "s3 = (let s1 = s\<lparr>curr := succ s\<rparr>;
          s2 = s1\<lparr>succ := keyToNibbles (bval key) []\<rparr>
      in (if \<not> isIH then s2\<lparr>succ := succ s2 @ [16]\<rparr> else s2))"
  have e0: "eff {} s s3" by (simp add: s3_def Let_def eff_quiet wl_le_def)
  define mid where "mid = (if length (curr s3) > 0 then
                 (case (if wasIH s3 then
                          (let s4 = s3\<lparr>hashData_Hash := go_copy (hashData_Hash s3) (val s3),
                                      hashData_DataLen := witnessLenAccount s3\<rparr>
                           in Ok (HashData (hashData_Hash s4) (hashData_DataLen s4), s4))
                        else
                          (case close_storage E s3 of
                             Err e s' \<Rightarrow> Err e (LeafData [], s')
                           | Ok s4 \<Rightarrow>
                               (let s5 = fill_accData E s4
                                in Ok (AccountData (accData s5), s5)))) of
                    Err e (data, s') \<Rightarrow> Err e s'
                  | Ok (data, s6) \<Rightarrow>
                      (let s7 = s6\<lparr>wasIHStorage := False, currStorage := [], succStorage := []\<rparr>
                       in case GenStructStep E InWalkerAccount (curr s7) (succ s7) data s7 of
                            Err e s' \<Rightarrow> Err e s'
                          | Ok s8 \<Rightarrow> Ok (s8\<lparr>accData := (accData s8)\<lparr>ad_FieldSet := 0\<rparr>\<rparr>)))
               else Ok s3)"
  have e1: "eff {InFinaliseStorageRoot, InWalkerAccount} s3 (result_state mid)"
    unfolding mid_def by (rule eff_WalkerAccount_mid)
  from eff_trans [OF e0 e1]
  have em: "eff {InFinaliseStorageRoot, InWalkerAccount} s (result_state mid)" by simp
  define fin :: "loader \<Rightarrow> loader result" where "fin = (\<lambda>s9.
             (let s10 = s9\<lparr>wasIH := isIH\<rparr>
              in if isIH then Ok (s10\<lparr>val := bval h, witnessLenAccount := w\<rparr>)
                 else
                   (let s11 = s10\<lparr>a := v'\<rparr>
                    in if \<not> IsEmptyCodeHash E (a s11) then
                         (let s12 = s11\<lparr>accData := (accData s11)\<lparr>ad_FieldSet :=
                                       ad_FieldSet (accData s11) OR AccountFieldCodeOnly E\<rparr>,
                                     hb := hb s11 @ [HbHash (acc_CodeHash (a s11))]\<rparr>
                          in if hb_hash_fails E (since_reset (hb s12)) then Err HashBuilderError s12
                             else Ok s12)
                       else Ok s11)))"
  have W: "WalkerAccount E isIH r key v' h w s =
      (case mid of Err e s' \<Rightarrow> Err e s' | Ok s9 \<Rightarrow> fin s9)"
    unfolding WalkerAccount_def mid_def s3_def fin_def Let_def by simp
  have fin_hb: "\<exists>new. hb (result_state (fin s9)) = hb s9 @ new \<and> calls_ok {} s new" for s9
    by (auto simp: fin_def Let_def result_state_def calls_ok_def call_ok_def)
  have fin_fields: "fin s9 = Ok s' \<Longrightarrow>
          wasIH s' = isIH \<and> (isIH \<longrightarrow> witnessLenAccount s' = w)
          \<and> wasIHStorage s' = wasIHStorage s9
          \<and> witnessLenStorage s' = witnessLenStorage s9
          \<and> storageWitnessLen s' = storageWitnessLen s9
          \<and> accountWitnessLen s' = accountWitnessLen s9" for s9 s'
    by (auto simp: fin_def Let_def split: if_splits)
  from em obtain n1 where n1: "hb (result_state mid) = hb s @ n1"
    "calls_ok {InFinaliseStorageRoot, InWalkerAccount} s n1" "wl_le (result_state mid) s"
    by (auto simp: eff_def)
  show ?thesis
  proof (cases mid)
    case (Err e s')
    with W n1 show ?thesis by (auto simp: result_state_def)
  next
    case (Ok s9)
    from fin_hb [of s9] obtain n2 where n2: "hb (result_state (fin s9)) = hb s9 @ n2"
      "calls_ok {} s n2" by blast
    from n1 Ok have "hb s9 = hb s @ n1" "wl_le s9 s" by (simp_all add: result_state_def)
    with n2 have "hb (result_state (fin s9)) = hb s @ (n1 @ n2)" by simp
    moreover have "calls_ok {InFinaliseStorageRoot, InWalkerAccount} s (n1 @ n2)"
      using calls_ok_append [OF n1(2) n2(2)] by simp
    ultimately have A: "\<exists>new. hb (result_state (WalkerAccount E isIH r key v' h w s)) = hb s @ new
          \<and> calls_ok {InFinaliseStorageRoot, InWalkerAccount} s new"
      using W Ok by auto
    have B: "\<forall>s'. WalkerAccount E isIH r key v' h w s = Ok s' \<longrightarrow>
          wasIH s' = isIH \<and> (isIH \<longrightarrow> witnessLenAccount s' = w)
          \<and> (wasIHStorage s' \<longrightarrow> wasIHStorage s)
          \<and> witnessLenStorage s' = witnessLenStorage s
          \<and> storageWitnessLen s' = storageWitnessLen s
          \<and> accountWitnessLen s' = accountWitnessLen s"
      using W Ok fin_fields [of s9] \<open>wl_le s9 s\<close> by (auto simp: wl_le_def)
    from A B show ?thesis by blast
  qed
qed


lemma eff_finaliseRoot_flush:
  "eff {InFinaliseStorageRoot, InFinaliseRoot} s2
     (result_state
        (case (if wasIH s2 then
                                  (let s3 = s2\<lparr>hashData_Hash := BytesToHash (val s2),
                                              hashData_DataLen := accountWitnessLen s2\<rparr>
                                   in Ok (HashData (hashData_Hash s3) (hashData_DataLen s3), s3))
                                else
                                  (case close_storage E s2 of
                                     Err e s' \<Rightarrow> Err e (LeafData [], s')
                                   | Ok s3 \<Rightarrow>
                                       (let s4 = fill_accData E (s3\<lparr>wasIHStorage := False\<rparr>)
                                        in Ok (AccountData (accData s4), s4)))) of
                            Err e (data, s') \<Rightarrow> Err e s'
                          | Ok (data, s5) \<Rightarrow>
                              (case GenStructStep E InFinaliseRoot (curr s5) (succ s5) data s5 of
                                 Err e s' \<Rightarrow> Err e s'
                               | Ok s6 \<Rightarrow>
                                   (case (if int (length (groups s6)) > cutoff
                                          then slice_to (groups s6) cutoff
                                          else Inr (groups s6)) of
                                      Inl e \<Rightarrow> Err e s6
                                    | Inr gs \<Rightarrow>
                                        Ok (s6\<lparr>groups := trim_groups gs,
                                               accData := (accData s6)\<lparr>ad_FieldSet := 0\<rparr>\<rparr>)))))"
  (is "eff ?S s2 (result_state ?flush)")
proof (cases "wasIH s2")
  case w: True
  let ?s3 = "s2\<lparr>hashData_Hash := BytesToHash (val s2), hashData_DataLen := accountWitnessLen s2\<rparr>"
  let ?d = "HashData (hashData_Hash ?s3) (hashData_DataLen ?s3)"
  let ?g = "GenStructStep E InFinaliseRoot (curr ?s3) (succ ?s3) ?d ?s3"
  have e1: "eff {} s2 ?s3" by (simp add: eff_quiet wl_le_def)
  have "\<forall>h dl. ?d = HashData h dl \<longrightarrow> dl_ok ?s3 InFinaliseRoot dl"
    using w by (simp add: dl_ok_def)
  from eff_GenStructStep [OF this, of E "curr ?s3" "succ ?s3"]
  have e2: "eff {InFinaliseRoot} ?s3 (result_state ?g)" .
  have "hb (result_state ?flush) = hb (result_state ?g)
      \<and> wl_le (result_state ?flush) (result_state ?g)"
    using w
    by (auto simp: Let_def result_state_def wl_le_def split: result.splits sum.splits)
  then have e3: "eff {} (result_state ?g) (result_state ?flush)" by (simp add: eff_quiet)
  from eff_trans [OF eff_trans [OF e1 e2] e3] show ?thesis
    by (rule eff_mono) auto
next
  case w: False
  show ?thesis
  proof (cases "close_storage E s2")
    case (Err e s')
    with eff_close_storage [of s2 E] have "eff {InFinaliseStorageRoot} s2 s'"
      by (simp add: result_state_def)
    moreover have "result_state ?flush = s'"
      using w Err by (simp add: result_state_def)
    ultimately show ?thesis by (auto intro: eff_mono)
  next
    case (Ok s3)
    with eff_close_storage [of s2 E] have e0: "eff {InFinaliseStorageRoot} s2 s3"
      by (simp add: result_state_def)
    let ?s4 = "fill_accData E (s3\<lparr>wasIHStorage := False\<rparr>)"
    let ?d = "AccountData (accData ?s4)"
    let ?g = "GenStructStep E InFinaliseRoot (curr ?s4) (succ ?s4) ?d ?s4"
    have e1: "eff {} s3 ?s4"
      by (simp add: eff_quiet wl_le_def fill_accData_def Let_def)
    have "\<forall>h dl. ?d = HashData h dl \<longrightarrow> dl_ok ?s4 InFinaliseRoot dl" by simp
    from eff_GenStructStep [OF this, of E "curr ?s4" "succ ?s4"]
    have e2: "eff {InFinaliseRoot} ?s4 (result_state ?g)" .
    have "hb (result_state ?flush) = hb (result_state ?g)
        \<and> wl_le (result_state ?flush) (result_state ?g)"
      using w Ok
      by (auto simp: Let_def result_state_def wl_le_def split: result.splits sum.splits)
    then have e3: "eff {} (result_state ?g) (result_state ?flush)" by (simp add: eff_quiet)
    from eff_trans [OF eff_trans [OF eff_trans [OF e0 e1] e2] e3] show ?thesis
      by (rule eff_mono) auto
  qed
qed

lemma eff_reset_tail:
  "eff {} s7 ((append_root E s7)\<lparr>groups := [], hb := hb s7 @ [HbReset], wasIH := False,
                      wasIHStorage := False, curr := [], succ := [], currStorage := [],
                      succStorage := []\<rparr>)"
  by (simp add: eff_def wl_le_def append_root_def calls_ok_def call_ok_def)

lemma finaliseRoot_effect:
  "eff {InFinaliseStorageRoot, InFinaliseRoot} s (result_state (finaliseRoot E cutoff s))"
proof (cases "cutoff \<ge> int (2 * HashLength)")
  case True
  obtain ok s1 where r: "result_state (finaliseStorageRoot E cutoff s) = (ok, s1)"
    by (metis surj_pair)
  with eff_finaliseStorageRoot [of s E cutoff]
  have e: "eff {InFinaliseStorageRoot} s s1" by simp
  have "hb (result_state (finaliseRoot E cutoff s)) = hb s1
      \<and> wl_le (result_state (finaliseRoot E cutoff s)) s1"
    using r True
    by (auto simp: finaliseRoot_def result_state_def wl_le_def append_root_def
        split: result.splits)
  then have "eff {} s1 (result_state (finaliseRoot E cutoff s))" by (simp add: eff_quiet)
  from eff_trans [OF e this] show ?thesis by (rule eff_mono) auto
next
  case False
  define s1 where "s1 = s\<lparr>curr := succ s, succ := []\<rparr>"
  have e0: "eff {} s s1" by (simp add: s1_def eff_quiet wl_le_def)
  define pre where "pre = (if cutoff > 0 then
                             (case slice_to (curr s1) (cutoff - 1) of
                                Inl e \<Rightarrow> Err e s1
                              | Inr pre \<Rightarrow>
                                  (case index_at (curr s1) (cutoff - 1) of
                                     Inl e \<Rightarrow> Err e (s1\<lparr>succ := pre\<rparr>)
                                   | Inr b \<Rightarrow> Ok (s1\<lparr>succ := pre @ [b + 1]\<rparr>)))
                           else Ok s1)"
  define flush :: "loader \<Rightarrow> loader result" where "flush = (\<lambda>s2.
        (case (if wasIH s2 then
                                  (let s3 = s2\<lparr>hashData_Hash := BytesToHash (val s2),
                                              hashData_DataLen := accountWitnessLen s2\<rparr>
                                   in Ok (HashData (hashData_Hash s3) (hashData_DataLen s3), s3))
                                else
                                  (case close_storage E s2 of
                                     Err e s' \<Rightarrow> Err e (LeafData [], s')
                                   | Ok s3 \<Rightarrow>
                                       (let s4 = fill_accData E (s3\<lparr>wasIHStorage := False\<rparr>)
                                        in Ok (AccountData (accData s4), s4)))) of
                            Err e (data, s') \<Rightarrow> Err e s'
                          | Ok (data, s5) \<Rightarrow>
                              (case GenStructStep E InFinaliseRoot (curr s5) (succ s5) data s5 of
                                 Err e s' \<Rightarrow> Err e s'
                               | Ok s6 \<Rightarrow>
                                   (case (if int (length (groups s6)) > cutoff
                                          then slice_to (groups s6) cutoff
                                          else Inr (groups s6)) of
                                      Inl e \<Rightarrow> Err e s6
                                    | Inr gs \<Rightarrow>
                                        Ok (s6\<lparr>groups := trim_groups gs,
                                               accData := (accData s6)\<lparr>ad_FieldSet := 0\<rparr>\<rparr>)))))"
  define mid where "mid = (if length (curr s1) > 0 then
                    (case pre of Err e s' \<Rightarrow> Err e s' | Ok s2 \<Rightarrow> flush s2)
                  else Ok s1)"
  have F: "finaliseRoot E cutoff s =
      (case mid of Err e s' \<Rightarrow> Err e s'
       | Ok s7 \<Rightarrow> Ok ((append_root E s7)\<lparr>groups := [], hb := hb s7 @ [HbReset], wasIH := False,
                      wasIHStorage := False, curr := [], succ := [], currStorage := [],
                      succStorage := []\<rparr>))"
    using False unfolding finaliseRoot_def mid_def pre_def flush_def s1_def Let_def by simp
  have pre_q: "eff {} s1 (result_state pre)"
    by (auto simp: pre_def eff_quiet wl_le_def result_state_def split: if_splits sum.splits)
  have fl: "eff {InFinaliseStorageRoot, InFinaliseRoot} s2 (result_state (flush s2))" for s2
    unfolding flush_def by (rule eff_finaliseRoot_flush)
  have em: "eff {InFinaliseStorageRoot, InFinaliseRoot} s1 (result_state mid)"
  proof (cases "length (curr s1) > 0")
    case f: False
    then show ?thesis by (simp add: mid_def result_state_def)
  next
    case t: True
    show ?thesis
    proof (cases pre)
      case (Err e s2)
      with pre_q have "eff {} s1 s2" by (simp add: result_state_def)
      then have "eff {InFinaliseStorageRoot, InFinaliseRoot} s1 s2" by (rule eff_mono) simp
      with t Err show ?thesis by (simp add: mid_def result_state_def)
    next
      case (Ok s2)
      with pre_q have "eff {} s1 s2" by (simp add: result_state_def)
      from eff_trans [OF this fl [of s2]] t Ok show ?thesis
        by (simp add: mid_def)
    qed
  qed
  from eff_trans [OF e0 em]
  have es: "eff {InFinaliseStorageRoot, InFinaliseRoot} s (result_state mid)" by simp
  show ?thesis
  proof (cases mid)
    case (Err e s')
    with F es show ?thesis by (simp add: result_state_def)
  next
    case (Ok s7)
    with es have "eff {InFinaliseStorageRoot, InFinaliseRoot} s s7"
      by (simp add: result_state_def)
    from eff_trans [OF this eff_reset_tail [of s7 E]] F Ok show ?thesis
      by (simp add: result_state_def)
  qed
qed


lemma last_storage_hash_wl_snoc:
  "last_storage_hash_wl (xs @ [x]) =
     (case x of StorageHash key h w \<Rightarrow> Some w | _ \<Rightarrow> last_storage_hash_wl xs)"
  by (induction xs) (auto split: stream_item.splits option.splits)

lemma last_account_hash_wl_snoc:
  "last_account_hash_wl (xs @ [x]) =
     (case x of AccountHash key h w \<Rightarrow> Some w | _ \<Rightarrow> last_account_hash_wl xs)"
  by (induction xs) (auto split: stream_item.splits option.splits)

lemma process_hb:
  "hb (result_state (process E x s)) = hb (result_state (dispatch E (put_item x s)))"
  by (simp add: process_def result_state_def split: result.splits)

lemma dispatch_calls:
  "\<exists>new. hb (result_state (dispatch E (put_item x s))) = hb s @ new
      \<and> calls_ok (case x of StorageLeaf key value \<Rightarrow> {InWalkerStorage}
                   | StorageHash key h w \<Rightarrow> {InWalkerStorage}
                   | AccountLeaf key acc \<Rightarrow> {InFinaliseStorageRoot, InWalkerAccount}
                   | AccountHash key h w \<Rightarrow> {InFinaliseStorageRoot, InWalkerAccount}
                   | Cutoff n \<Rightarrow> {InFinaliseStorageRoot, InFinaliseRoot}) (put_item x s) new"
proof (cases x)
  case (AccountLeaf key acc)
  let ?t = "put_item x s"
  from WalkerAccount_effect [of E False "rangeIdx ?t" "accountKey ?t" "accountValue ?t"
      "accountHash ?t" "accountWitnessLen ?t" ?t] AccountLeaf
  show ?thesis by (auto simp: dispatch_def put_item_def)
next
  case (StorageLeaf key vl)
  let ?t = "put_item x s"
  from WalkerStorage_effect [of E False "rangeIdx ?t" "storageKeyPart1 ?t" "storageKeyPart2 ?t"
      "storageValue ?t" "storageHash ?t" "storageWitnessLen ?t" ?t] StorageLeaf
  show ?thesis by (auto simp: dispatch_def put_item_def)
next
  case (AccountHash key h w)
  let ?t = "put_item x s"
  from WalkerAccount_effect [of E True "rangeIdx ?t" "accountKey ?t" "accountValue ?t"
      "accountHash ?t" "accountWitnessLen ?t" ?t] AccountHash
  show ?thesis by (auto simp: dispatch_def put_item_def)
next
  case (StorageHash key h w)
  let ?t = "put_item x s"
  from WalkerStorage_effect [of E True "rangeIdx ?t" "storageKeyPart1 ?t" "storageKeyPart2 ?t"
      "storageValue ?t" "storageHash ?t" "storageWitnessLen ?t" ?t] StorageHash
  show ?thesis by (auto simp: dispatch_def put_item_def)
next
  case (Cutoff n)
  let ?t = "put_item x s"
  from finaliseRoot_effect [of ?t E "streamCutoff ?t"] Cutoff
  show ?thesis by (auto simp: dispatch_def put_item_def eff_def)
qed

lemma process_preserves:
  assumes "process E x s = Ok s'" "pending_witness_lens items s"
  shows "pending_witness_lens (items @ [x]) s'"
proof -
  let ?t = "put_item x s"
  from assms(1) obtain s2 where d: "dispatch E ?t = Ok s2" and s': "s' = s2\<lparr>itemPresent := False\<rparr>"
    by (auto simp: process_def split: result.splits)
  show ?thesis
  proof (cases x)
    case (AccountLeaf key acc)
    with d have "WalkerAccount E False (rangeIdx ?t) (accountKey ?t) (accountValue ?t)
      (accountHash ?t) (accountWitnessLen ?t) ?t = Ok s2"
      by (simp add: dispatch_def put_item_def)
    with WalkerAccount_effect [of E False "rangeIdx ?t" "accountKey ?t" "accountValue ?t"
      "accountHash ?t" "accountWitnessLen ?t" ?t]
    have "\<not> wasIH s2" "wasIHStorage s2 \<longrightarrow> wasIHStorage ?t"
      "witnessLenStorage s2 = witnessLenStorage ?t" "storageWitnessLen s2 = storageWitnessLen ?t"
      by auto
    with assms(2) s' AccountLeaf show ?thesis
      by (auto simp: pending_witness_lens_def put_item_def last_storage_hash_wl_snoc
          last_account_hash_wl_snoc)
  next
    case (StorageLeaf key vl)
    with d have "WalkerStorage E False (rangeIdx ?t) (storageKeyPart1 ?t) (storageKeyPart2 ?t)
      (storageValue ?t) (storageHash ?t) (storageWitnessLen ?t) ?t = Ok s2"
      by (simp add: dispatch_def put_item_def)
    with WalkerStorage_effect [of E False "rangeIdx ?t" "storageKeyPart1 ?t" "storageKeyPart2 ?t"
      "storageValue ?t" "storageHash ?t" "storageWitnessLen ?t" ?t]
    have "\<not> wasIHStorage s2" "wasIH s2 = wasIH ?t"
      "witnessLenAccount s2 = witnessLenAccount ?t" "accountWitnessLen s2 = accountWitnessLen ?t"
      by auto
    with assms(2) s' StorageLeaf show ?thesis
      by (auto simp: pending_witness_lens_def put_item_def last_storage_hash_wl_snoc
          last_account_hash_wl_snoc)
  next
    case (AccountHash key h w)
    with d have "WalkerAccount E True (rangeIdx ?t) (accountKey ?t) (accountValue ?t)
      (accountHash ?t) (accountWitnessLen ?t) ?t = Ok s2"
      by (simp add: dispatch_def put_item_def)
    with WalkerAccount_effect [of E True "rangeIdx ?t" "accountKey ?t" "accountValue ?t"
      "accountHash ?t" "accountWitnessLen ?t" ?t]
    have "wasIH s2" "witnessLenAccount s2 = accountWitnessLen ?t"
      "accountWitnessLen s2 = accountWitnessLen ?t"
      "wasIHStorage s2 \<longrightarrow> wasIHStorage ?t"
      "witnessLenStorage s2 = witnessLenStorage ?t" "storageWitnessLen s2 = storageWitnessLen ?t"
      by auto
    with assms(2) s' AccountHash show ?thesis
      by (auto simp: pending_witness_lens_def put_item_def last_storage_hash_wl_snoc
          last_account_hash_wl_snoc)
  next
    case (StorageHash key h w)
    with d have "WalkerStorage E True (rangeIdx ?t) (storageKeyPart1 ?t) (storageKeyPart2 ?t)
      (storageValue ?t) (storageHash ?t) (storageWitnessLen ?t) ?t = Ok s2"
      by (simp add: dispatch_def put_item_def)
    with WalkerStorage_effect [of E True "rangeIdx ?t" "storageKeyPart1 ?t" "storageKeyPart2 ?t"
      "storageValue ?t" "storageHash ?t" "storageWitnessLen ?t" ?t]
    have "wasIHStorage s2" "witnessLenStorage s2 = storageWitnessLen ?t"
      "storageWitnessLen s2 = storageWitnessLen ?t" "wasIH s2 = wasIH ?t"
      "witnessLenAccount s2 = witnessLenAccount ?t" "accountWitnessLen s2 = accountWitnessLen ?t"
      by auto
    with assms(2) s' StorageHash show ?thesis
      by (auto simp: pending_witness_lens_def put_item_def last_storage_hash_wl_snoc
          last_account_hash_wl_snoc)
  next
    case (Cutoff n)
    with d have "finaliseRoot E (streamCutoff ?t) ?t = Ok s2"
      by (simp add: dispatch_def put_item_def)
    with finaliseRoot_effect [of ?t E "streamCutoff ?t"]
    have "wl_le s2 ?t" by (simp add: eff_def result_state_def)
    with assms(2) s' Cutoff show ?thesis
      by (auto simp: pending_witness_lens_def put_item_def last_storage_hash_wl_snoc
          last_account_hash_wl_snoc wl_le_def)
  qed
qed

lemma run_preserves:
  "run E xs s = Ok s' \<Longrightarrow> pending_witness_lens pre s \<Longrightarrow> pending_witness_lens (pre @ xs) s'"
proof (induction xs arbitrary: s pre)
  case Nil
  then show ?case by simp
next
  case (Cons x xs)
  from Cons.prems(1) obtain s1 where p: "process E x s = Ok s1" and r: "run E xs s1 = Ok s'"
    by (auto split: result.splits)
  from process_preserves [OF p Cons.prems(2)] have "pending_witness_lens (pre @ [x]) s1" .
  from Cons.IH [OF r this] show ?case by simp
qed


text \<open>
  Claim C2, as stated, at a concrete input: two cached storage hashes in a row, with
  witness lengths 1 and 2. When the walker receives the second, the most recently emitted
  storage hash item is that second one, of witness length 2; the \<^verbatim>\<open>HashData\<close> that
  \<^verbatim>\<open>WalkerStorage\<close> hands to the hash builder is the pending first hash, with
  \<^verbatim>\<open>DataLen\<close> 1. The same is seen in a whole load of a state that holds the two hashes:
  the structural steps with \<^verbatim>\<open>HashData\<close> are one from \<^verbatim>\<open>WalkerStorage\<close> with length 1
  and one from \<^verbatim>\<open>finaliseStorageRoot\<close> with length 2.
\<close>

theorem WalkerStorage_flushes_previous_hash_counterexample:
  "last_storage_hash_wl [hash_1, hash_2] = Some 2
   \<and> map hash_data_len
       (drop (length (hb (result_state (run example_env [hash_1] NewFlatDbSubTrieLoader))))
          (hb (result_state
                 (process example_env hash_2
                    (result_state (run example_env [hash_1] NewFlatDbSubTrieLoader))))))
     = [Some (InWalkerStorage, 1)]
   \<and> map_option (map hash_data_len \<circ> hb \<circ> snd \<circ> snd)
       (reset_then_load example_env 10 (HasKV (Some two_hashes_kv)) (\<lambda>_. False) [[]] [0]
          NewFlatDbSubTrieLoader)
     = Some [None, Some (InWalkerStorage, 1), Some (InFinaliseStorageRoot, 2), None, None]"
  by code_simp

text \<open>
  Claim C2, amended. Let the driver have consumed any sequence of stream items without
  error, from a loader in which no hash is pending (as after \<open>Reset\<close>), and let it consume
  one more item. The hash builder's log only grows, and every structural step with
  \<^verbatim>\<open>HashData\<close> issued while that item is consumed carries, at the storage level (from
  \<^verbatim>\<open>WalkerStorage\<close> or \<^verbatim>\<open>finaliseStorageRoot\<close>), the witness length looked up for the
  last storage hash item emitted before the item being consumed, which is the hash being
  flushed; and at the account level (from \<^verbatim>\<open>WalkerAccount\<close> or \<^verbatim>\<open>finaliseRoot\<close>) that of
  the last account hash item emitted before it.
\<close>

theorem hash_data_carries_pending_witness_length:
  assumes "run E items s0 = Ok s" "\<not> wasIH s0" "\<not> wasIHStorage s0"
  shows "take (length (hb s)) (hb (result_state (process E x s))) = hb s
    \<and> (\<forall>call\<in>set (drop (length (hb s)) (hb (result_state (process E x s)))).
         \<forall>site dl. hash_data_len call = Some (site, dl) \<longrightarrow>
           (site = InWalkerStorage \<or> site = InFinaliseStorageRoot
              \<longrightarrow> last_storage_hash_wl items = Some dl)
         \<and> (site = InWalkerAccount \<or> site = InFinaliseRoot
              \<longrightarrow> last_account_hash_wl items = Some dl))"
proof -
  have "pending_witness_lens [] s0" using assms(2,3) by (simp add: pending_witness_lens_def)
  from run_preserves [OF assms(1) this] have inv: "pending_witness_lens items s" by simp
  let ?t = "put_item x s"
  let ?sites = "case x of StorageLeaf key vl \<Rightarrow> {InWalkerStorage}
                   | StorageHash key h w \<Rightarrow> {InWalkerStorage}
                   | AccountLeaf key acc \<Rightarrow> {InFinaliseStorageRoot, InWalkerAccount}
                   | AccountHash key h w \<Rightarrow> {InFinaliseStorageRoot, InWalkerAccount}
                   | Cutoff n \<Rightarrow> {InFinaliseStorageRoot, InFinaliseRoot}"
  from dispatch_calls [of E x s] obtain new where
    new: "hb (result_state (dispatch E ?t)) = hb s @ new" "calls_ok ?sites ?t new" by blast
  then have hbp: "hb (result_state (process E x s)) = hb s @ new" by (simp add: process_hb)
  have "(site = InWalkerStorage \<or> site = InFinaliseStorageRoot
              \<longrightarrow> last_storage_hash_wl items = Some dl)
         \<and> (site = InWalkerAccount \<or> site = InFinaliseRoot
              \<longrightarrow> last_account_hash_wl items = Some dl)"
    if c: "call \<in> set new" and h: "hash_data_len call = Some (site, dl)" for call site dl
  proof -
    from h obtain cu su hh g where call: "call = HbGenStructStep site cu su (HashData hh dl) g"
      by (cases call rule: hash_data_len.cases) auto
    from new(2) c call have ok: "site \<in> ?sites" "dl_ok ?t site dl"
      by (auto simp: calls_ok_def call_ok_def)
    show ?thesis
    proof (cases x)
      case (AccountLeaf key acc)
      with ok inv show ?thesis
        by (auto simp: dl_ok_def put_item_def pending_witness_lens_def)
    next
      case (StorageLeaf key vl)
      with ok inv show ?thesis
        by (auto simp: dl_ok_def put_item_def pending_witness_lens_def)
    next
      case (AccountHash key h w)
      with ok inv show ?thesis
        by (auto simp: dl_ok_def put_item_def pending_witness_lens_def)
    next
      case (StorageHash key h w)
      with ok inv show ?thesis
        by (auto simp: dl_ok_def put_item_def pending_witness_lens_def)
    next
      case (Cutoff n)
      with ok inv show ?thesis
        by (auto simp: dl_ok_def put_item_def pending_witness_lens_def)
    qed
  qed
  with hbp show ?thesis by simp
qed

theorem hash_data_carries_pending_witness_length_witness:
  "run example_env [hash_1] NewFlatDbSubTrieLoader
     = Ok (ok_state (Some (run example_env [hash_1] NewFlatDbSubTrieLoader)))
   \<and> \<not> wasIH NewFlatDbSubTrieLoader \<and> \<not> wasIHStorage NewFlatDbSubTrieLoader
   \<and> (\<exists>call\<in>set (drop (length (hb (ok_state (Some (run example_env [hash_1]
                                                      NewFlatDbSubTrieLoader)))))
                     (hb (result_state
                            (process example_env hash_2
                               (ok_state (Some (run example_env [hash_1]
                                                  NewFlatDbSubTrieLoader))))))).
         hash_data_len call = Some (InWalkerStorage, 1))
   \<and> last_storage_hash_wl [hash_1] = Some 1"
proof -
  let ?s = "ok_state (Some (run example_env [hash_1] NewFlatDbSubTrieLoader))"
  let ?new = "drop (length (hb ?s)) (hb (result_state (process example_env hash_2 ?s)))"
  have "is_ok (Some (run example_env [hash_1] NewFlatDbSubTrieLoader))" by code_simp
  from is_ok_collapse [OF this]
  have h1: "run example_env [hash_1] NewFlatDbSubTrieLoader = Ok ?s" by simp
  have h2: "\<not> wasIH NewFlatDbSubTrieLoader" by code_simp
  have h3: "\<not> wasIHStorage NewFlatDbSubTrieLoader" by code_simp
  have "map hash_data_len ?new = [Some (InWalkerStorage, 1)]" by code_simp
  then obtain call where c: "call \<in> set ?new" "hash_data_len call = Some (InWalkerStorage, 1)"
    by (cases ?new) auto
  from hash_data_carries_pending_witness_length [OF h1 h2 h3, of hash_2] c
  have "last_storage_hash_wl [hash_1] = Some 1" by blast
  with h1 h2 h3 c show ?thesis by blast
qed

section \<open>The item buffer as the step writes it\<close>

text \<open>The items of the driver above are the ones the step produces: a step that starts
  without a pending item and ends with one has written the buffer of some item, and the
  loop writes the buffer of a \<open>Cutoff\<close> when it leaves a range.\<close>

lemma advance_c_item_buffer: "item_buffer (advance_c_past_storage p s) = item_buffer s"
  by (simp add: item_buffer_def advance_c_past_storage_def split: prod.splits bool.splits)

lemma advance_ih_item_buffer: "item_buffer (advance_ih_past_storage p s) = item_buffer s"
  by (simp add: item_buffer_def advance_ih_past_storage_def split: prod.splits bool.splits)

lemma skip_subtree_item_buffer: "item_buffer (skip_subtree r s) = item_buffer s"
proof (cases "nextSubtree (bval (ihK s))")
  case None
  then show ?thesis by (simp add: skip_subtree_def item_buffer_def)
next
  case (Some nxt)
  define s1 where "s1 = (if \<not> bytes_HasPrefix (bval (k s)) nxt then
                       (case SeekTo nxt (c s) of
                          ((k', v'), cur) \<Rightarrow> s\<lparr>k := k', v := v', c := cur\<rparr>)
                     else s)"
  define s2 where "s2 = advance_c_past_storage nxt s1"
  define s3 where "s3 = (if \<not> bytes_HasPrefix (bval (ihK s2)) nxt then
                       (case SeekTo nxt (ih s2) of
                          ((ik, iv), icur) \<Rightarrow> s2\<lparr>ihK := ik, ihV := iv, ih := icur\<rparr>)
                     else s2)"
  have a1: "item_buffer s1 = item_buffer s"
    by (simp add: s1_def item_buffer_def split: prod.splits)
  have a2: "item_buffer s2 = item_buffer s1" by (simp add: s2_def advance_c_item_buffer)
  have a3: "item_buffer s3 = item_buffer s2"
    by (simp add: s3_def item_buffer_def split: prod.splits)
  have "skip_subtree r s = advance_ih_past_storage nxt s3"
    using Some by (simp add: skip_subtree_def Let_def s1_def s2_def s3_def)
  with a1 a2 a3 show ?thesis by (simp add: advance_ih_item_buffer)
qed

lemma leaf_path_writes_item:
  assumes "leaf_path E s = Ok s'" "\<not> itemPresent s" "itemPresent s'"
  shows "\<exists>x. item_buffer s' = item_buffer (put_item x s)"
proof (cases "blen (k s) > HashLength")
  case big: True
  show ?thesis
  proof (cases "bytes_HasPrefix (bval (k s)) (accAddrHashWithInc s)")
    case False
    with big assms(1) have "itemPresent s' = itemPresent s"
      by (auto simp: leaf_path_def split: if_splits prod.splits bool.splits)
    with assms show ?thesis by simp
  next
    case True
    with big assms(1)
    have "item_buffer s' = item_buffer (put_item (StorageLeaf (k s) (v s)) s)"
      by (auto simp: leaf_path_def Let_def item_buffer_def put_item_def split: prod.splits)
    then show ?thesis by blast
  qed
next
  case False
  with assms(1)
  have "item_buffer s' = item_buffer (put_item (AccountLeaf (k s) (accountValue s')) s)"
    by (auto simp: leaf_path_def Let_def item_buffer_def put_item_def
        split: prod.splits option.splits if_splits)
  then show ?thesis by blast
qed


lemma emit_hash_writes_item:
  assumes "emit_hash E s = Ok s2"
  shows "item_buffer s2 =
      item_buffer (put_item (if blen (ihK s) > HashLength
                             then StorageHash (ihK s) (ihV s) (storageWitnessLen s2)
                             else AccountHash (ihK s) (ihV s) (accountWitnessLen s2)) s)"
proof (cases "blen (ihK s) > HashLength")
  case True
  with assms show ?thesis
    by (auto simp: emit_hash_def Let_def item_buffer_def put_item_def
        split: prod.splits sum.splits)
next
  case False
  with assms show ?thesis
    by (auto simp: emit_hash_def Let_def item_buffer_def put_item_def
        split: prod.splits sum.splits)
qed

lemma put_item_minKeyAsNibbles:
  "item_buffer (put_item x (s\<lparr>minKeyAsNibbles := n\<rparr>)) = item_buffer (put_item x s)"
  by (cases x) (simp_all add: item_buffer_def put_item_def)

lemma iteration_body_writes_item:
  assumes "iteration_body E L s = Ok s'" "\<not> itemPresent s" "itemPresent s'"
  shows "\<exists>x. item_buffer s' = item_buffer (put_item x s)"
proof (cases "l_isIH L")
  case False
  with assms(1) have "leaf_path E s = Ok s'" by (simp add: iteration_body_def)
  from leaf_path_writes_item [OF this assms(2,3)] show ?thesis .
next
  case True
  with assms(1) have ip: "ih_path E L s = Ok s'" by (simp add: iteration_body_def)
  from assms(2,3) have "\<not> (itemPresent s' = itemPresent s \<and> itemType s' = itemType s)" by simp
  from ih_path_changes_item [OF ip this] obtain s2 where
    e: "emit_hash E (s\<lparr>minKeyAsNibbles := keyToNibblesWithoutInc (bval (l_minKey L)) []\<rparr>) = Ok s2"
    and s': "s' = skip_subtree False s2" by blast
  from emit_hash_writes_item [OF e] s' skip_subtree_item_buffer [of False s2]
  show ?thesis by (auto simp: put_item_minKeyAsNibbles)
qed

lemma next_range_writes_cutoff:
  "item_buffer (flow_state (next_range False L s)) = item_buffer (put_item (Cutoff (l_cutoff L)) s)"
  by (auto simp: next_range_def Let_def flow_state_def item_buffer_def put_item_def
      copy_prefix_to_accAddrHashWithInc_def split: sum.splits if_splits)

section \<open>The merge step: a first range without keys\<close>

text \<open>
  The first step starts without a smaller key, so its loop seeks both cursors to the
  prefix of the first range. When the key found there is past the range, the loop reloads
  the range it already has, since \<^verbatim>\<open>rangeIdx\<close> is incremented only when \<^verbatim>\<open>first\<close> is
  false, and compares the same key with the same range again. So when no key of the
  database is in the first range the loop of the first step does not end: the model gives
  \<open>None\<close> for every amount of fuel.
\<close>

lemma flow_collapse:
  "flow_locals f = Some L \<Longrightarrow> f = Goes L (flow_state f)"
  by (cases f) (simp_all add: flow_locals_def flow_state_def)

lemma next_range_first_fixpoint:
  assumes "rangeIdx s < length (dbPrefixes s)" "ranges_ok s"
    "l_fixedbytes L = fixedbytes s ! rangeIdx s" "l_mask L = masks s ! rangeIdx s"
    "l_dbPrefix L = dbPrefixes s ! rangeIdx s" "l_cutoff L = cutoffs s ! rangeIdx s"
    "length (l_dbPrefix L) \<le> HashLength"
  shows "next_range True L s = Goes L s"
  using assms by (simp add: next_range_def Let_def index_at_def ranges_ok_def)

lemma reconcile_first_past_range:
  assumes "range_cmp True L = Inr r" "0 < r" "l_cmp L = r" "next_range True L s = Goes L s"
  shows "reconcile n True L s = None"
proof (induction n)
  case 0
  show ?case by simp
next
  case (Suc n)
  have "L\<lparr>l_cmp := r\<rparr> = L" using assms(3) by simp
  with assms(4) have n': "next_range True (L\<lparr>l_cmp := r\<rparr>) s = Goes L s" by simp
  have nz: "l_cmp L \<noteq> 0" using assms(2,3) by simp
  show ?case using assms(1,2) nz n' Suc by (simp add: Let_def)
qed

lemma reconcile_empty_first_range:
  "reconcile n True empty_first_range_locals empty_first_range_input = None"
proof -
  let ?L0 = empty_first_range_locals
  let ?S0 = empty_first_range_input
  let ?f = "seek_range True ?L0 ?S0"
  let ?L1 = "\<lparr>l_isIH = False, l_minKey = Some key_10, l_fixedbytes = 1, l_cutoff = 2,
              l_dbPrefix = [8], l_mask = 255, l_cmp = - 1\<rparr>"
  let ?L2 = "?L1\<lparr>l_cmp := 1\<rparr>"
  have c0: "range_cmp True ?L0 = Inr (- 1)" by code_simp
  have z0: "l_cmp ?L0 \<noteq> 0" by code_simp
  have u0: "?L0\<lparr>l_cmp := - 1\<rparr> = ?L0" by code_simp
  have "flow_locals ?f = Some ?L1" by code_simp
  from flow_collapse [OF this] obtain S1 where f: "?f = Goes ?L1 S1"
    and S1: "S1 = flow_state ?f" by simp
  have c1: "range_cmp True ?L1 = Inr 1" by code_simp
  have z1: "l_cmp ?L1 \<noteq> 0" by code_simp
  have c2: "range_cmp True ?L2 = Inr 1" by code_simp
  have fp: "next_range True ?L2 S1 = Goes ?L2 S1"
  proof (rule next_range_first_fixpoint)
    show "rangeIdx S1 < length (dbPrefixes S1)" unfolding S1 by code_simp
    show "ranges_ok S1" unfolding S1 by code_simp
    show "l_fixedbytes ?L2 = fixedbytes S1 ! rangeIdx S1" unfolding S1 by code_simp
    show "l_mask ?L2 = masks S1 ! rangeIdx S1" unfolding S1 by code_simp
    show "l_dbPrefix ?L2 = dbPrefixes S1 ! rangeIdx S1" unfolding S1 by code_simp
    show "l_cutoff ?L2 = cutoffs S1 ! rangeIdx S1" unfolding S1 by code_simp
    show "length (l_dbPrefix ?L2) \<le> HashLength" by code_simp
  qed
  have loop: "reconcile m True ?L2 S1 = None" for m
    by (rule reconcile_first_past_range [OF c2 _ _ fp]) simp_all
  have pass2: "reconcile m True ?L1 S1 = None" for m
  proof (cases m)
    case 0
    then show ?thesis by simp
  next
    case (Suc m')
    with c1 z1 fp loop [of m'] show ?thesis by (simp add: Let_def)
  qed
  show ?thesis
  proof (cases n)
    case 0
    then show ?thesis by simp
  next
    case (Suc n')
    with c0 z0 u0 f pass2 [of n'] show ?thesis by (simp add: Let_def)
  qed
qed

lemma iteration_empty_first_range:
  "iteration E n True empty_first_range_input = None"
proof -
  have "initial_locals True empty_first_range_input = Inr empty_first_range_locals"
    by code_simp
  with reconcile_empty_first_range [of n] show ?thesis by (simp add: iteration_def)
qed

lemma LoadSubTries_empty_first_range:
  "reset_then_load example_env n (HasKV (Some two_accounts_kv)) (\<lambda>_. False) [[8], [16]] [8, 8]
     NewFlatDbSubTrieLoader = None"
proof -
  let ?r = "Reset example_env (HasKV (Some two_accounts_kv)) (\<lambda>_. False) [[8], [16]] [8, 8]
              False NewFlatDbSubTrieLoader"
  have "is_ok (Some ?r)" by code_simp
  from is_ok_collapse [OF this] have "?r = Ok (result_state ?r)"
    by (simp add: ok_state_def)
  then obtain s where r: "?r = Ok s" and s: "s = result_state ?r" by simp
  have d: "length (dbPrefixes (result_state ?r)) \<noteq> 0" by code_simp
  have b: "boltDB (result_state ?r) = Some two_accounts_kv" by code_simp
  have i: "open_cursors two_accounts_kv (result_state ?r) = empty_first_range_input"
    by (simp add: empty_first_range_input_def first_step_input_def)
  have "LoadSubTries example_env n s = None"
    unfolding s using d b i iteration_empty_first_range [of example_env n]
    by (simp add: LoadSubTries_def Let_def)
  with r show ?thesis by (simp add: reset_then_load_def)
qed

end
